theory Spec2Isabelle
  imports Complex_Main
begin

section \<open>Queue rows and the durable queue\<close>

text \<open>
  The seven queue categories used by \<^verbatim>\<open>registrar.py\<close> (the first argument of
  \<^verbatim>\<open>in_queue\<close> and \<^verbatim>\<open>queue_find_accepted\<close>).
\<close>

datatype category = Preorder | Register | Update | Transfer | Renew | Revoke | NameImport

text \<open>
  A queue row is the dictionary the worker reads with \<^verbatim>\<open>row['fqu']\<close>,
  \<^verbatim>\<open>row['tx_hash']\<close>, \<^verbatim>\<open>row['zonefile']\<close>, \<^verbatim>\<open>row.get('zonefile_hash')\<close>,
  \<^verbatim>\<open>row['token_file']\<close> and \<^verbatim>\<open>row.get('transfer_address')\<close>. A field that is
  Python's \<^verbatim>\<open>None\<close> (or absent where the code uses \<^verbatim>\<open>.get\<close>) is \<open>None\<close>.
\<close>

record qrow =
  category :: category
  fqu :: string
  tx_hash :: string
  zonefile :: "string option"
  zonefile_hash :: "string option"
  token_file :: "string option"
  transfer_address :: "string option"
  errors :: "string option list"

type_synonym queue = "qrow list"

definition same_key :: "qrow \<Rightarrow> qrow \<Rightarrow> bool" where
  "same_key a b = (category a = category b \<and> fqu a = fqu b)"

text \<open>
  Modelled from the spec: \<^verbatim>\<open>queue.py\<close> (\<^verbatim>\<open>in_queue\<close>, \<^verbatim>\<open>queue_removeall\<close>,
  \<^verbatim>\<open>queue_add_error_msg\<close>, \<^verbatim>\<open>queue_find_accepted\<close> and the append used by the
  \<^verbatim>\<open>async_*\<close> operations) is not part of the sources at hand. The spec gives: one row
  per (category, fqu); \<open>Contains(category, fqu)\<close>; \<open>RemoveAll(entries)\<close>, an idempotent
  bulk delete by primary key; \<open>AddErrorMessage(category, fqu, text)\<close>, an annotation of
  the row; \<open>Append(category, entry)\<close>, which fails on a duplicate; and
  \<open>FindAccepted(category)\<close>, the rows whose transaction has enough confirmations.
\<close>

definition in_queue :: "category \<Rightarrow> string \<Rightarrow> queue \<Rightarrow> bool" where
  "in_queue c n q = list_ex (\<lambda>r. category r = c \<and> fqu r = n) q"

definition queue_removeall :: "qrow list \<Rightarrow> queue \<Rightarrow> queue" where
  "queue_removeall rs q = filter (\<lambda>r. \<not> list_ex (same_key r) rs) q"

definition queue_add_error_msg :: "category \<Rightarrow> string \<Rightarrow> string option \<Rightarrow> queue \<Rightarrow> queue" where
  "queue_add_error_msg c n msg q =
     map (\<lambda>r. if category r = c \<and> fqu r = n then r\<lparr>errors := errors r @ [msg]\<rparr> else r) q"

definition queue_append :: "qrow \<Rightarrow> queue \<Rightarrow> queue option" where
  "queue_append r q = (if in_queue (category r) (fqu r) q then None else Some (q @ [r]))"

definition queue_find_accepted :: "(string \<Rightarrow> bool) \<Rightarrow> category \<Rightarrow> queue \<Rightarrow> qrow list" where
  "queue_find_accepted conf c q = filter (\<lambda>r. category r = c \<and> conf (tx_hash r)) q"

section \<open>The chain, peer and storage adapters\<close>

text \<open>
  \<^verbatim>\<open>get_name_blockchain_record\<close> answers a dictionary: one with an \<^verbatim>\<open>'error'\<close> key,
  or a name record. In a name record the \<^verbatim>\<open>'address'\<close> key may be missing
  (\<^verbatim>\<open>'address' in name_rec\<close> is tested by the caller) and \<^verbatim>\<open>'value_hash'\<close> may be
  \<^verbatim>\<open>None\<close>.
\<close>

datatype name_rec = RecError string | Rec "string option" "string option"

text \<open>The answer of a broadcast: \<^verbatim>\<open>{'error': ...}\<close> or \<^verbatim>\<open>{'transaction_hash': ...}\<close>,
  each possibly with the raw transaction under \<^verbatim>\<open>'tx'\<close>.\<close>

datatype bresp = BErr string "string option" | BOk string "string option"

text \<open>
  The functions imported by \<^verbatim>\<open>registrar.py\<close> from the proxy, storage, zonefile and
  token-file modules are outside the sources at hand; they are parameters of the model.
\<close>

record env =
  confirmed :: "string \<Rightarrow> bool"
  is_name_registered :: "string \<Rightarrow> bool"
  get_name_blockchain_record :: "string \<Rightarrow> name_rec"
  is_zonefile_hash_current :: "string \<Rightarrow> string \<Rightarrow> bool"
  get_zonefile_data_hash :: "string \<Rightarrow> string"
  broadcast :: "category \<Rightarrow> string \<Rightarrow> bresp"
  zonefile_data_replicate :: "string \<Rightarrow> string \<Rightarrow> string + nat"
  is_user_zonefile :: "string \<Rightarrow> bool"
  token_file_put :: "string \<Rightarrow> string \<Rightarrow> string option"
  sha256_hexdigest :: "string \<Rightarrow> string"

text \<open>What the worker and the issuers do to the outside world, in order.\<close>

datatype event =
    EvChainRecord string
  | EvHashCurrent string string bool
  | EvAtlasPush string string
  | EvTokenPut string string
  | EvBroadcast category string

datatype exn = NameError | AssertionError | InvalidResponse

section \<open>The replicator\<close>

text \<open>The two accumulators \<^verbatim>\<open>replicated_zonefiles=[]\<close> and
  \<^verbatim>\<open>replicated_token_file_hashes=[]\<close>: default arguments, so they live as long as the
  process and are shared by every call.\<close>

record repl_state =
  replicated_zonefiles :: "string list"
  replicated_token_file_hashes :: "string list"

text \<open>\<^verbatim>\<open>{'status': True}\<close> or \<^verbatim>\<open>{'error': msg}\<close>.\<close>

datatype rres = RStatus | RError string

text \<open>Python's \<^verbatim>\<open>str\<close> on a value that is a string or \<^verbatim>\<open>None\<close>.\<close>

definition py_str :: "string option \<Rightarrow> string" where
  "py_str v = (case v of None \<Rightarrow> ''None'' | Some s \<Rightarrow> s)"

text \<open>
  Lines 446-488 of \<^verbatim>\<open>replicate_name_data\<close>: the token file. \<open>signing\<close> is the result
  of \<^verbatim>\<open>get_signing_privkey(get_owner_privkey_info(wallet_data))\<close>, asserted to be
  truthy: neither \<^verbatim>\<open>None\<close> nor the empty string.
\<close>

definition replicate_token_file ::
  "env \<Rightarrow> qrow \<Rightarrow> string \<Rightarrow> string \<Rightarrow> string option \<Rightarrow> repl_state \<Rightarrow> event list
     \<Rightarrow> (exn + rres) \<times> repl_state \<times> event list" where
  "replicate_token_file e nd zd zh signing rs evs =
     (case token_file nd of
        None \<Rightarrow> (Inr RStatus, rs, evs)
      | Some tf \<Rightarrow>
          if \<not> is_user_zonefile e zd then (Inr RStatus, rs, evs)
          else (case signing of
                  None \<Rightarrow> (Inl AssertionError, rs, evs)
                | Some key \<Rightarrow>
                    if key = [] then (Inl AssertionError, rs, evs) else
                    let h = sha256_hexdigest e (fqu nd @ zh @ tf) in
                    if h \<in> set (replicated_token_file_hashes rs) then (Inr RStatus, rs, evs)
                    else (case token_file_put e (fqu nd) tf of
                            Some err \<Rightarrow>
                              (Inr (RError ''Failed to replicate token file''), rs,
                               evs @ [EvTokenPut (fqu nd) tf])
                          | None \<Rightarrow>
                              (Inr RStatus,
                               rs\<lparr>replicated_token_file_hashes :=
                                    replicated_token_file_hashes rs @ [h]\<rparr>,
                               evs @ [EvTokenPut (fqu nd) tf]))))"

text \<open>\<^verbatim>\<open>RegistrarWorker.replicate_name_data\<close>, lines 402-488.\<close>

definition replicate_name_data ::
  "env \<Rightarrow> qrow \<Rightarrow> string option \<Rightarrow> repl_state \<Rightarrow> (exn + rres) \<times> repl_state \<times> event list" where
  "replicate_name_data e nd signing rs =
     (case zonefile nd of
        None \<Rightarrow> (Inr RStatus, rs, [])
      | Some zd \<Rightarrow>
          let zh = (case zonefile_hash nd of
                      None \<Rightarrow> get_zonefile_data_hash e zd
                    | Some h \<Rightarrow> h)
          in if zh \<notin> set (replicated_zonefiles rs) then
               (case get_name_blockchain_record e (fqu nd) of
                  RecError msg \<Rightarrow> (Inr (RError msg), rs, [EvChainRecord (fqu nd)])
                | Rec addr vh \<Rightarrow>
                    if py_str vh \<noteq> zh then
                      (Inr (RError ''Zonefile hash not yet replicated''), rs,
                       [EvChainRecord (fqu nd)])
                    else (case zonefile_data_replicate e (fqu nd) zd of
                            Inl msg \<Rightarrow>
                              (Inr (RError msg), rs,
                               [EvChainRecord (fqu nd), EvAtlasPush (fqu nd) zd])
                          | Inr n \<Rightarrow>
                              replicate_token_file e nd zd zh signing
                                (rs\<lparr>replicated_zonefiles := replicated_zonefiles rs @ [zh]\<rparr>)
                                [EvChainRecord (fqu nd), EvAtlasPush (fqu nd) zd]))
             else replicate_token_file e nd zd zh signing rs [])"

text \<open>The zonefile hash of an entry whose zonefile data is \<open>zd\<close>: the stored hash, or the
  hash of the data when none is stored (lines 420-422).\<close>

definition entry_zonefile_hash :: "env \<Rightarrow> qrow \<Rightarrow> string \<Rightarrow> string" where
  "entry_zonefile_hash e nd zd =
     (case zonefile_hash nd of None \<Rightarrow> get_zonefile_data_hash e zd | Some h \<Rightarrow> h)"

subsection \<open>A concrete environment and row\<close>

definition env0 :: env where
  "env0 = \<lparr>confirmed = (\<lambda>t. True),
           is_name_registered = (\<lambda>n. False),
           get_name_blockchain_record = (\<lambda>n. Rec (Some ''addr-old'') (Some ''hash-old'')),
           is_zonefile_hash_current = (\<lambda>n h. h = ''hash-old''),
           get_zonefile_data_hash = (\<lambda>z. ''hash-of-'' @ z),
           broadcast = (\<lambda>c n. BOk (''tx-'' @ n) None),
           zonefile_data_replicate = (\<lambda>n z. Inr 1),
           is_user_zonefile = (\<lambda>z. True),
           token_file_put = (\<lambda>n t. None),
           sha256_hexdigest = (\<lambda>s. ''sha-'' @ s)\<rparr>"

definition row0 :: qrow where
  "row0 = \<lparr>category = Update, fqu = ''alice.id'', tx_hash = ''tx1'',
            zonefile = Some ''zf'', zonefile_hash = Some ''hash-new'',
            token_file = Some ''tok'', transfer_address = None, errors = []\<rparr>"

definition rs_empty :: repl_state where
  "rs_empty = \<lparr>replicated_zonefiles = [], replicated_token_file_hashes = []\<rparr>"

subsection \<open>Entries without zonefile data\<close>

text \<open>
  The test of line 416 is \<^verbatim>\<open>zonefile_data is None\<close>. Zonefile data that is the empty
  string passes it and is handled like any other data: here the blockchain is consulted,
  the empty zonefile is pushed to the atlas peers and the token file is put.
\<close>

theorem replicate_name_data_empty_string:
  "zonefile (row0\<lparr>zonefile := Some [], zonefile_hash := Some ''hash-old''\<rparr>) = Some [] \<and>
   replicate_name_data env0 (row0\<lparr>zonefile := Some [], zonefile_hash := Some ''hash-old''\<rparr>)
       (Some ''key'') rs_empty
     = (Inr RStatus,
        \<lparr>replicated_zonefiles = [''hash-old''],
         replicated_token_file_hashes = [''sha-alice.idhash-oldtok'']\<rparr>,
        [EvChainRecord ''alice.id'', EvAtlasPush ''alice.id'' [], EvTokenPut ''alice.id'' ''tok''])"
  by (simp add: row0_def env0_def rs_empty_def replicate_name_data_def replicate_token_file_def
      py_str_def)

text \<open>
  C6, as the code has it. For every queue entry whose zonefile data is \<^verbatim>\<open>None\<close>,
  \<open>replicate_name_data\<close> answers \<^verbatim>\<open>{'status': True}\<close> at once: the blockchain is not
  consulted, no peer is contacted, no token file is put (the list of events is empty)
  and the two dedupe lists are unchanged.
\<close>

theorem replicate_name_data_no_zonefile:
  "zonefile nd = None \<Longrightarrow> replicate_name_data e nd signing rs = (Inr RStatus, rs, [])"
  by (simp add: replicate_name_data_def)

theorem replicate_name_data_no_zonefile_witness:
  "zonefile (row0\<lparr>zonefile := None\<rparr>) = None \<and>
   replicate_name_data env0 (row0\<lparr>zonefile := None\<rparr>) (Some ''key'') rs_empty
     = (Inr RStatus, rs_empty, [])"
  using replicate_name_data_no_zonefile [of "row0\<lparr>zonefile := None\<rparr>" env0 "Some ''key''" rs_empty]
  by (simp add: row0_def)

subsection \<open>The hash check and the dedupe lists\<close>

text \<open>
  The check of the blockchain record's \<^verbatim>\<open>value_hash\<close> (line 434) sits inside
  \<^verbatim>\<open>if zonefile_hash not in replicated_zonefiles\<close> (line 424). An entry whose hash
  is already in that list skips the check: here the chain still shows
  \<open>''hash-old''\<close>, the entry's hash is \<open>''hash-new''\<close>, and the token file is put and
  the call answers \<^verbatim>\<open>{'status': True}\<close>.
\<close>

theorem replicate_name_data_dedupe_skips_check:
  "zonefile row0 = Some ''zf'' \<and>
   get_name_blockchain_record env0 (fqu row0) = Rec (Some ''addr-old'') (Some ''hash-old'') \<and>
   py_str (Some ''hash-old'') \<noteq> entry_zonefile_hash env0 row0 ''zf'' \<and>
   replicate_name_data env0 row0 (Some ''key'')
       \<lparr>replicated_zonefiles = [''hash-new''], replicated_token_file_hashes = []\<rparr>
     = (Inr RStatus,
        \<lparr>replicated_zonefiles = [''hash-new''],
         replicated_token_file_hashes = [''sha-alice.idhash-newtok'']\<rparr>,
        [EvTokenPut ''alice.id'' ''tok''])"
  by (simp add: row0_def env0_def replicate_name_data_def replicate_token_file_def py_str_def
      entry_zonefile_hash_def)

lemma replicate_token_file_events:
  "replicate_token_file e nd zd zh signing rs evs = (r, rs', evs') \<Longrightarrow>
   evs' = evs \<or> evs' = evs @ [EvTokenPut (fqu nd) (the (token_file nd))]"
  by (auto simp: replicate_token_file_def Let_def split: option.splits if_splits)

text \<open>
  C3, as the code has it. Take an entry with zonefile data \<open>zd\<close> and a blockchain record
  whose \<^verbatim>\<open>value_hash\<close> differs from the entry's zonefile hash. If that hash is not yet
  in \<^verbatim>\<open>replicated_zonefiles\<close>, the call consults the blockchain, replicates nothing,
  leaves the dedupe lists as they are and answers
  \<^verbatim>\<open>{'error': 'Zonefile hash not yet replicated'}\<close>. If the hash is already in
  \<^verbatim>\<open>replicated_zonefiles\<close>, the blockchain is not consulted and nothing is pushed to
  the atlas peers: the only event the call can produce is the put of the token file.
\<close>

theorem replicate_name_data_hash_binding:
  assumes "zonefile nd = Some zd"
    and "get_name_blockchain_record e (fqu nd) = Rec addr vh"
    and "py_str vh \<noteq> entry_zonefile_hash e nd zd"
  shows "(entry_zonefile_hash e nd zd \<notin> set (replicated_zonefiles rs) \<longrightarrow>
            replicate_name_data e nd signing rs
              = (Inr (RError ''Zonefile hash not yet replicated''), rs, [EvChainRecord (fqu nd)]))
       \<and> (entry_zonefile_hash e nd zd \<in> set (replicated_zonefiles rs) \<longrightarrow>
            (\<exists>r rs'. replicate_name_data e nd signing rs = (r, rs', [])
                  \<or> replicate_name_data e nd signing rs
                       = (r, rs', [EvTokenPut (fqu nd) (the (token_file nd))])))"
proof (intro conjI impI)
  assume "entry_zonefile_hash e nd zd \<notin> set (replicated_zonefiles rs)"
  with assms show "replicate_name_data e nd signing rs
      = (Inr (RError ''Zonefile hash not yet replicated''), rs, [EvChainRecord (fqu nd)])"
    by (simp add: replicate_name_data_def entry_zonefile_hash_def Let_def)
next
  assume "entry_zonefile_hash e nd zd \<in> set (replicated_zonefiles rs)"
  with assms have eq: "replicate_name_data e nd signing rs
      = replicate_token_file e nd zd (entry_zonefile_hash e nd zd) signing rs []"
    by (simp add: replicate_name_data_def entry_zonefile_hash_def Let_def)
  obtain r rs' evs where
    tf: "replicate_token_file e nd zd (entry_zonefile_hash e nd zd) signing rs [] = (r, rs', evs)"
    by (cases "replicate_token_file e nd zd (entry_zonefile_hash e nd zd) signing rs []") auto
  from replicate_token_file_events [OF tf]
  have "evs = [] \<or> evs = [EvTokenPut (fqu nd) (the (token_file nd))]" by simp
  with eq tf show "\<exists>r rs'. replicate_name_data e nd signing rs = (r, rs', [])
      \<or> replicate_name_data e nd signing rs
           = (r, rs', [EvTokenPut (fqu nd) (the (token_file nd))])"
    by auto
qed

theorem replicate_name_data_hash_binding_witness:
  "replicate_name_data env0 row0 (Some ''key'') rs_empty
     = (Inr (RError ''Zonefile hash not yet replicated''), rs_empty, [EvChainRecord ''alice.id''])"
  using replicate_name_data_hash_binding [of row0 "''zf''" env0 "Some ''addr-old''"
      "Some ''hash-old''" rs_empty "Some ''key''"]
  by (simp add: row0_def env0_def rs_empty_def py_str_def entry_zonefile_hash_def)


section \<open>The wallet cache\<close>

text \<open>
  Private-key information is a Python string (a single private key) or a dictionary (the
  multisig information); \<^verbatim>\<open>assert keypair[1]\<close> tests its truthiness, which for both
  is being non-empty.
\<close>

datatype privkey_info = KeyString string | KeyDict "(string \<times> string) list"

fun truthy_key :: "privkey_info \<Rightarrow> bool" where
  "truthy_key (KeyString s) = (s \<noteq> [])"
| "truthy_key (KeyDict d) = (d \<noteq> [])"

text \<open>The fields of \<^verbatim>\<open>RegistrarState\<close> that hold the wallet; each starts as \<^verbatim>\<open>None\<close>.\<close>

record registrar_state =
  payment_address :: "string option"
  owner_address :: "string option"
  payment_privkey_info :: "privkey_info option"
  owner_privkey_info :: "privkey_info option"
  data_privkey_info :: "privkey_info option"
  data_pubkey :: "string option"

definition locked_state :: registrar_state where
  "locked_state = \<lparr>payment_address = None, owner_address = None,
     payment_privkey_info = None, owner_privkey_info = None,
     data_privkey_info = None, data_pubkey = None\<rparr>"

section \<open>The operation issuers\<close>

text \<open>The dictionary an issuer returns; a key that is not set is \<open>None\<close>.\<close>

record op_result =
  success :: bool
  error :: "string option"
  warning :: "string option"
  message :: "string option"
  transaction_hash :: "string option"
  value_hash :: "string option"
  tx :: "string option"

definition failure :: "string \<Rightarrow> op_result" where
  "failure msg = \<lparr>success = False, error = Some msg, warning = None, message = None,
     transaction_hash = None, value_hash = None, tx = None\<rparr>"

text \<open>
  Modelled from the spec: \<^verbatim>\<open>nameops.py\<close> (\<^verbatim>\<open>async_preorder\<close>,
  \<^verbatim>\<open>async_register\<close>, \<^verbatim>\<open>async_update\<close>, \<^verbatim>\<open>async_transfer\<close>) is not part of the
  sources at hand. The spec gives for each operation: it broadcasts the transaction
  through the chain adapter and, when the broadcast succeeded, enqueues a row of its
  category carrying the payload for the later stages; appending a duplicate fails.
\<close>

definition async_op :: "env \<Rightarrow> qrow \<Rightarrow> queue \<Rightarrow> bresp \<times> queue \<times> event list" where
  "async_op e r q =
     (case broadcast e (category r) (fqu r) of
        BErr msg t \<Rightarrow> (BErr msg t, q, [EvBroadcast (category r) (fqu r)])
      | BOk h t \<Rightarrow>
          (case queue_append (r\<lparr>tx_hash := h\<rparr>) q of
             None \<Rightarrow> (BErr ''Already in queue.'' t, q, [EvBroadcast (category r) (fqu r)])
           | Some q' \<Rightarrow> (BOk h t, q', [EvBroadcast (category r) (fqu r)])))"

definition new_row ::
  "category \<Rightarrow> string \<Rightarrow> string option \<Rightarrow> string option \<Rightarrow> string option \<Rightarrow> string option
     \<Rightarrow> qrow" where
  "new_row c n zf zh tok ta =
     \<lparr>category = c, fqu = n, tx_hash = [], zonefile = zf, zonefile_hash = zh,
      token_file = tok, transfer_address = ta, errors = []\<rparr>"

definition wallet_locked :: "registrar_state \<Rightarrow> bool" where
  "wallet_locked st = (payment_address st = None \<or> owner_address st = None)"

definition msg_preorder :: string where
  "msg_preorder = ''The name has been queued up for registration and will take a few hours to go through. You can check on the status at any time by running 'blockstack info'.''"

definition msg_update :: string where
  "msg_update = ''The name has been queued up for update and will take ~1 hour to process. You can check on the status at any time by running 'blockstack info'.''"

definition msg_transfer :: string where
  "msg_transfer = ''The name has been queued up for transfer and will take ~1 hour to process. You can check on the status at any time by running 'blockstack info'.''"

definition msg_retry :: string where
  "msg_retry = ''Couldn't broadcast transaction. You can try again.''"

text \<open>
  \<^verbatim>\<open>preorder\<close>, lines 1135-1194. The cost and the number of payment confirmations are
  only handed to \<^verbatim>\<open>async_preorder\<close> and are left out.
\<close>

definition preorder ::
  "env \<Rightarrow> registrar_state \<Rightarrow> queue \<Rightarrow> string \<Rightarrow> string option \<Rightarrow> string option \<Rightarrow> string option
     \<Rightarrow> op_result \<times> queue \<times> event list" where
  "preorder e st q name zonefile_data tokenfile transfer_addr =
     (if wallet_locked st then (failure ''Wallet is not unlocked.'', q, [])
      else if in_queue Preorder name q then (failure ''Already in queue.'', q, [])
      else (case async_op e (new_row Preorder name zonefile_data None tokenfile transfer_addr) q of
              (BOk h t, q', evs) \<Rightarrow>
                (\<lparr>success = True, error = None, warning = None, message = Some msg_preorder,
                  transaction_hash = Some h, value_hash = None, tx = t\<rparr>, q', evs)
            | (BErr msg t, q', evs) \<Rightarrow>
                (\<lparr>success = False, error = Some msg, warning = None, message = Some msg_retry,
                  transaction_hash = None, value_hash = None, tx = t\<rparr>, q', evs)))"

definition unchanged_result :: op_result where
  "unchanged_result = \<lparr>success = True, error = None,
     warning = Some ''The zonefile has not changed, so no update sent.'', message = None,
     transaction_hash = None, value_hash = None, tx = None\<rparr>"

text \<open>\<^verbatim>\<open>update\<close>, lines 1211-1269: what follows the computation of the hash.\<close>

definition update_with_hash ::
  "env \<Rightarrow> registrar_state \<Rightarrow> queue \<Rightarrow> string \<Rightarrow> string option \<Rightarrow> string option \<Rightarrow> string
     \<Rightarrow> string option \<Rightarrow> op_result \<times> queue \<times> event list" where
  "update_with_hash e st q name zonefile_txt tokenfile zh transfer_addr =
     (if wallet_locked st then (failure ''Wallet is not unlocked.'', q, [])
      else if in_queue Update name q then (failure ''Already in queue.'', q, [])
      else if \<not> is_zonefile_hash_current e name zh then
        (case async_op e (new_row Update name zonefile_txt (Some zh) tokenfile transfer_addr) q of
           (BOk h t, q', evs) \<Rightarrow>
             (\<lparr>success = True, error = None, warning = None, message = Some msg_update,
               transaction_hash = Some h, value_hash = Some zh, tx = t\<rparr>, q',
              EvHashCurrent name zh False # evs)
         | (BErr msg t, q', evs) \<Rightarrow>
             (\<lparr>success = False, error = Some msg, warning = None, message = Some msg_retry,
               transaction_hash = None, value_hash = None, tx = t\<rparr>, q',
              EvHashCurrent name zh False # evs))
      else (unchanged_result, q, [EvHashCurrent name zh True]))"

text \<open>
  \<^verbatim>\<open>update\<close>, lines 1197-1269. The assertion of line 1206 fails when neither the
  zonefile text nor its hash is given; the hash is computed from the text when it is not
  given.
\<close>

definition update ::
  "env \<Rightarrow> registrar_state \<Rightarrow> queue \<Rightarrow> string \<Rightarrow> string option \<Rightarrow> string option \<Rightarrow> string option
     \<Rightarrow> string option \<Rightarrow> (exn + op_result) \<times> queue \<times> event list" where
  "update e st q name zonefile_txt tokenfile zonefile_hash_arg transfer_addr =
     (case (zonefile_hash_arg, zonefile_txt) of
        (None, None) \<Rightarrow> (Inl AssertionError, q, [])
      | (None, Some txt) \<Rightarrow>
          (case update_with_hash e st q name zonefile_txt tokenfile
                  (get_zonefile_data_hash e txt) transfer_addr of
             (r, q', evs) \<Rightarrow> (Inr r, q', evs))
      | (Some zh, _) \<Rightarrow>
          (case update_with_hash e st q name zonefile_txt tokenfile zh transfer_addr of
             (r, q', evs) \<Rightarrow> (Inr r, q', evs)))"

text \<open>\<^verbatim>\<open>transfer\<close>, lines 1273-1319.\<close>

definition transfer ::
  "env \<Rightarrow> registrar_state \<Rightarrow> queue \<Rightarrow> string \<Rightarrow> string \<Rightarrow> op_result \<times> queue \<times> event list" where
  "transfer e st q name addr =
     (if wallet_locked st then (failure ''Wallet is not unlocked.'', q, [])
      else if in_queue Transfer name q then (failure ''Already in queue.'', q, [])
      else (case async_op e (new_row Transfer name None None None (Some addr)) q of
              (BOk h t, q', evs) \<Rightarrow>
                (\<lparr>success = True, error = None, warning = None, message = Some msg_transfer,
                  transaction_hash = Some h, value_hash = None, tx = t\<rparr>, q', evs)
            | (BErr msg t, q', evs) \<Rightarrow>
                (\<lparr>success = False, error = Some msg, warning = None, message = None,
                  transaction_hash = None, value_hash = None, tx = t\<rparr>, q', evs)))"

fun is_broadcast :: "event \<Rightarrow> bool" where
  "is_broadcast (EvBroadcast c n) = True"
| "is_broadcast _ = False"

definition unlocked_state :: registrar_state where
  "unlocked_state = \<lparr>payment_address = Some ''pay-addr'', owner_address = Some ''own-addr'',
     payment_privkey_info = Some (KeyString ''pay-key''),
     owner_privkey_info = Some (KeyString ''own-key''),
     data_privkey_info = Some (KeyString ''data-key''), data_pubkey = Some ''04data''\<rparr>"

subsection \<open>Facts about the queue and the broadcasts\<close>

lemma in_queue_append [simp]:
  "in_queue c n (q @ q') = (in_queue c n q \<or> in_queue c n q')"
  by (auto simp: in_queue_def list_ex_iff)

lemma in_queue_Nil [simp]: "in_queue c n [] = False"
  by (simp add: in_queue_def)

lemma in_queue_Cons [simp]:
  "in_queue c n (r # q) = ((category r = c \<and> fqu r = n) \<or> in_queue c n q)"
  by (simp add: in_queue_def)

lemma async_op_cases:
  assumes "async_op e r q = (b, q', evs)"
  shows "evs = [EvBroadcast (category r) (fqu r)] \<and>
         ((\<exists>h t. b = BOk h t \<and> q' = q @ [r\<lparr>tx_hash := h\<rparr>] \<and> \<not> in_queue (category r) (fqu r) q) \<or>
          (\<exists>m t. b = BErr m t \<and> q' = q))"
proof (cases "broadcast e (category r) (fqu r)")
  case (BErr m t)
  with assms have "b = BErr m t" "q' = q" "evs = [EvBroadcast (category r) (fqu r)]"
    by (simp_all add: async_op_def)
  then show ?thesis by simp
next
  case (BOk h t)
  show ?thesis
  proof (cases "in_queue (category r) (fqu r) q")
    case True
    with assms BOk have "b = BErr ''Already in queue.'' t" "q' = q"
      "evs = [EvBroadcast (category r) (fqu r)]"
      by (simp_all add: async_op_def queue_append_def)
    then show ?thesis by simp
  next
    case False
    with assms BOk have "b = BOk h t" "q' = q @ [r\<lparr>tx_hash := h\<rparr>]"
      "evs = [EvBroadcast (category r) (fqu r)]"
      by (simp_all add: async_op_def queue_append_def)
    with False show ?thesis by simp
  qed
qed



subsection \<open>A second preorder of a queued name\<close>

lemma preorder_rejects_queued:
  "\<not> wallet_locked st \<Longrightarrow> in_queue Preorder name q \<Longrightarrow>
   preorder e st q name zf tok ta = (failure ''Already in queue.'', q, [])"
  by (simp add: preorder_def)

lemma preorder_success:
  assumes "preorder e st q name zf tok ta = (r, q', evs)" and "success r"
  shows "\<not> wallet_locked st \<and> in_queue Preorder name q' \<and> evs = [EvBroadcast Preorder name]"
proof -
  from assms have nl: "\<not> wallet_locked st" and nq: "\<not> in_queue Preorder name q"
    by (auto simp: preorder_def failure_def split: if_splits)
  obtain b q1 evs1 where a: "async_op e (new_row Preorder name zf None tok ta) q = (b, q1, evs1)"
    by (cases "async_op e (new_row Preorder name zf None tok ta) q") auto
  from async_op_cases [OF a] assms nl nq a show ?thesis
    by (auto simp: preorder_def new_row_def)
qed

text \<open>
  C7. Let a first call of \<open>preorder\<close> for the name succeed: it made one broadcast and the
  name now has a preorder row. A further call for that name, with whatever payload, made
  while a preorder row for the name is in the queue, answers
  \<^verbatim>\<open>{'success': False, 'error': 'Already in queue.'}\<close>, broadcasts nothing (no event)
  and leaves the queue as it is.
\<close>

theorem preorder_twice_rejected:
  assumes "preorder e st q name zf tok ta = (r1, q1, evs1)" and "success r1"
    and "in_queue Preorder name q2"
  shows "in_queue Preorder name q1 \<and> evs1 = [EvBroadcast Preorder name] \<and>
         preorder e st q2 name zf' tok' ta' = (failure ''Already in queue.'', q2, [])"
  using preorder_success [OF assms(1,2)] preorder_rejects_queued [OF _ assms(3)] by simp

theorem preorder_twice_rejected_witness:
  "preorder env0 unlocked_state [] ''bob.id'' (Some ''zf'') None None
     = (\<lparr>success = True, error = None, warning = None, message = Some msg_preorder,
         transaction_hash = Some ''tx-bob.id'', value_hash = None, tx = None\<rparr>,
        [new_row Preorder ''bob.id'' (Some ''zf'') None None None\<lparr>tx_hash := ''tx-bob.id''\<rparr>],
        [EvBroadcast Preorder ''bob.id'']) \<and>
   preorder env0 unlocked_state
       [new_row Preorder ''bob.id'' (Some ''zf'') None None None\<lparr>tx_hash := ''tx-bob.id''\<rparr>]
       ''bob.id'' (Some ''zf2'') None None
     = (failure ''Already in queue.'',
        [new_row Preorder ''bob.id'' (Some ''zf'') None None None\<lparr>tx_hash := ''tx-bob.id''\<rparr>], [])"
proof -
  have first: "preorder env0 unlocked_state [] ''bob.id'' (Some ''zf'') None None
     = (\<lparr>success = True, error = None, warning = None, message = Some msg_preorder,
         transaction_hash = Some ''tx-bob.id'', value_hash = None, tx = None\<rparr>,
        [new_row Preorder ''bob.id'' (Some ''zf'') None None None\<lparr>tx_hash := ''tx-bob.id''\<rparr>],
        [EvBroadcast Preorder ''bob.id''])"
    by (simp add: preorder_def wallet_locked_def unlocked_state_def async_op_def env0_def
        queue_append_def new_row_def)
  have queued: "in_queue Preorder ''bob.id''
      [new_row Preorder ''bob.id'' (Some ''zf'') None None None\<lparr>tx_hash := ''tx-bob.id''\<rparr>]"
    by (simp add: new_row_def)
  from preorder_twice_rejected [OF first _ queued, of "Some ''zf2''" None None] first
  show ?thesis by simp
qed

subsection \<open>An update to the hash the chain already has\<close>

lemma update_with_hash_current:
  assumes "update_with_hash e st q name ztxt tok zh ta = (r, q', evs)"
    and "EvHashCurrent n h True \<in> set evs"
  shows "r = unchanged_result \<and> q' = q \<and> evs = [EvHashCurrent name zh True]"
proof -
  obtain b q1 evs1 where a: "async_op e (new_row Update name ztxt (Some zh) tok ta) q = (b, q1, evs1)"
    by (cases "async_op e (new_row Update name ztxt (Some zh) tok ta) q") auto
  from async_op_cases [OF a] have "evs1 = [EvBroadcast Update name]"
    by (simp add: new_row_def)
  with assms a show ?thesis
    by (auto simp: update_with_hash_def split: if_splits bresp.splits)
qed

text \<open>
  C8. Whenever the issuer's question \<^verbatim>\<open>is_zonefile_hash_current\<close> is answered with
  \<^verbatim>\<open>True\<close> (the hash on the chain is already the new hash), \<open>update\<close> answers
  \<^verbatim>\<open>{'success': True, 'warning': 'The zonefile has not changed, so no update sent.'}\<close>,
  broadcasts no transaction and leaves the queue as it is: no update row is enqueued.
  The question is asked after the two earlier gates of the issuer (wallet unlocked, no
  update row queued for the name); \<open>update_reaches_hash_check\<close> below gives the result
  from those conditions.
\<close>

theorem update_unchanged:
  assumes "update e st q name ztxt tok zhash ta = (r, q', evs)"
    and "EvHashCurrent n h True \<in> set evs"
  shows "r = Inr unchanged_result \<and> q' = q \<and> \<not> list_ex is_broadcast evs"
proof -
  from assms obtain zh r0 where
    u: "update_with_hash e st q name ztxt tok zh ta = (r0, q', evs)" and r: "r = Inr r0"
    by (auto simp: update_def split: option.splits prod.splits)
  from update_with_hash_current [OF u assms(2)] r show ?thesis by simp
qed

lemma update_reaches_hash_check:
  assumes "\<not> wallet_locked st" and "\<not> in_queue Update name q"
    and "is_zonefile_hash_current e name zh"
  shows "update e st q name ztxt tok (Some zh) ta
           = (Inr unchanged_result, q, [EvHashCurrent name zh True])"
  using assms by (simp add: update_def update_with_hash_def)

theorem update_unchanged_witness:
  "update env0 unlocked_state [] ''carol.id'' (Some ''zf'') None (Some ''hash-old'') None
     = (Inr unchanged_result, [], [EvHashCurrent ''carol.id'' ''hash-old'' True])"
proof -
  have run: "update env0 unlocked_state [] ''carol.id'' (Some ''zf'') None (Some ''hash-old'') None
     = (Inr unchanged_result, [], [EvHashCurrent ''carol.id'' ''hash-old'' True])"
    by (simp add: update_def update_with_hash_def wallet_locked_def unlocked_state_def env0_def)
  from update_unchanged [OF run, of "''carol.id''" "''hash-old''"] run show ?thesis by simp
qed




section \<open>The worker's steps\<close>

subsection \<open>Issuer calls of other threads\<close>









subsection \<open>Registering the confirmed preorders\<close>







subsection \<open>Sending the zonefile hashes of the confirmed registers\<close>







subsection \<open>The branches that call the undefined name\<close>





















subsection \<open>The transfer step\<close>

text \<open>\<^verbatim>\<open>res = { 'success' : True }\<close> of line 593: the chain already shows the name at
  the transfer address.\<close>

definition victory :: op_result where
  "victory = \<lparr>success = True, error = None, warning = None, message = None,
     transaction_hash = None, value_hash = None, tx = None\<rparr>"

text \<open>Lines 588-597 of \<^verbatim>\<open>transfer_names\<close>: look the name up on the chain; if it is
  already at the transfer address declare victory, otherwise call the transfer issuer.\<close>

definition request_transfer ::
  "env \<Rightarrow> registrar_state \<Rightarrow> queue \<Rightarrow> string \<Rightarrow> string \<Rightarrow> op_result \<times> queue \<times> event list" where
  "request_transfer e st q n addr =
     (case get_name_blockchain_record e n of
        Rec (Some a) vh \<Rightarrow> if a = addr then (victory, q, []) else transfer e st q n addr
      | _ \<Rightarrow> transfer e st q n addr)"

text \<open>
  Lines 587-617 of \<^verbatim>\<open>transfer_names\<close>: the body of the loop for one confirmed update
  that is not skipped. The first component says whether the row was cleared from the
  queue; when it was not, the name is appended to \<^verbatim>\<open>failed\<close>.
\<close>

definition transfer_name ::
  "env \<Rightarrow> registrar_state \<Rightarrow> qrow \<Rightarrow> queue \<Rightarrow> bool \<times> queue \<times> event list" where
  "transfer_name e st u q =
     (case transfer_address u of
        None \<Rightarrow> (True, queue_removeall [u] q, [])
      | Some addr \<Rightarrow>
          (case request_transfer e st q (fqu u) addr of
             (res, q1, evs1) \<Rightarrow>
               if success res then
                 (True, queue_removeall [u] q1, EvChainRecord (fqu u) # evs1)
               else
                 (False, queue_add_error_msg Update (fqu u) (error res) q1,
                  EvChainRecord (fqu u) # evs1)))"

text \<open>\<^verbatim>\<open>RegistrarWorker.transfer_names\<close>, lines 564-622. \<^verbatim>\<open>ret\<close> becomes the error
  dictionary exactly when a name is appended to \<^verbatim>\<open>failed\<close>.\<close>

fun transfer_names_loop ::
  "env \<Rightarrow> registrar_state \<Rightarrow> string list \<Rightarrow> qrow list \<Rightarrow> string list \<Rightarrow> queue \<Rightarrow> event list
     \<Rightarrow> string list \<times> queue \<times> event list" where
  "transfer_names_loop e st skip [] failed q evs = (failed, q, evs)"
| "transfer_names_loop e st skip (u # us) failed q evs =
     (if fqu u \<in> set skip then transfer_names_loop e st skip us failed q evs
      else (case transfer_name e st u q of
              (cleared, q1, evs1) \<Rightarrow>
                transfer_names_loop e st skip us
                  (if cleared then failed else failed @ [fqu u]) q1 (evs @ evs1)))"

definition transfer_names ::
  "env \<Rightarrow> registrar_state \<Rightarrow> string list \<Rightarrow> queue
     \<Rightarrow> rres \<times> string list \<times> queue \<times> event list" where
  "transfer_names e st skip q =
     (case transfer_names_loop e st skip (queue_find_accepted (confirmed e) Update q) [] q [] of
        (failed, q', evs) \<Rightarrow>
          (if failed = [] then RStatus else RError ''Not all names transferred'',
           failed, q', evs))"

text \<open>The chain record already shows the name at the row's transfer address (line 590).\<close>

definition already_there :: "env \<Rightarrow> qrow \<Rightarrow> bool" where
  "already_there e u =
     (case transfer_address u of
        None \<Rightarrow> False
      | Some addr \<Rightarrow>
          (case get_name_blockchain_record e (fqu u) of
             Rec (Some a) vh \<Rightarrow> a = addr
           | _ \<Rightarrow> False))"

text \<open>The transfer issuer gets as far as the broadcast, and the broadcast succeeds.\<close>

definition transfer_ok :: "env \<Rightarrow> registrar_state \<Rightarrow> queue \<Rightarrow> string \<Rightarrow> bool" where
  "transfer_ok e st q n =
     (\<not> wallet_locked st \<and> \<not> in_queue Transfer n q \<and>
      (case broadcast e Transfer n of BOk h t \<Rightarrow> True | BErr m t \<Rightarrow> False))"

text \<open>The error the transfer issuer reports when it does not succeed.\<close>

definition transfer_error :: "env \<Rightarrow> registrar_state \<Rightarrow> queue \<Rightarrow> string \<Rightarrow> string option" where
  "transfer_error e st q n =
     (if wallet_locked st then Some ''Wallet is not unlocked.''
      else if in_queue Transfer n q then Some ''Already in queue.''
      else (case broadcast e Transfer n of BOk h t \<Rightarrow> None | BErr m t \<Rightarrow> Some m))"

text \<open>The uniqueness invariant of the queue: one row per (category, fqu).\<close>

definition queue_unique :: "queue \<Rightarrow> bool" where
  "queue_unique q = distinct (map (\<lambda>r. (category r, fqu r)) q)"

definition slice :: "string \<Rightarrow> queue \<Rightarrow> queue" where
  "slice n q = filter (\<lambda>r. fqu r = n) q"

lemma in_queue_slice: "in_queue c n q = in_queue c n (slice n q)"
  by (auto simp: in_queue_def slice_def list_ex_iff)

lemma mem_slice: "r \<in> set q \<longleftrightarrow> r \<in> set (slice (fqu r) q)"
  by (simp add: slice_def)

lemma slice_removeall: "fqu v \<noteq> n \<Longrightarrow> slice n (queue_removeall [v] q) = slice n q"
  by (induction q) (auto simp: slice_def queue_removeall_def same_key_def)

lemma slice_add_error: "m \<noteq> n \<Longrightarrow> slice n (queue_add_error_msg c m msg q) = slice n q"
  by (induction q) (auto simp: slice_def queue_add_error_msg_def)

lemma transfer_cases:
  assumes "transfer e st q n a = (res, q1, evs1)"
  shows "success res = transfer_ok e st q n"
    and "\<not> success res \<Longrightarrow> q1 = q \<and> error res = transfer_error e st q n"
    and "success res \<Longrightarrow> evs1 = [EvBroadcast Transfer n]"
    and "\<exists>ext. q1 = q @ ext \<and> (\<forall>r \<in> set ext. category r = Transfer \<and> fqu r = n)"
proof -
  obtain b q2 evs2 where a: "async_op e (new_row Transfer n None None None (Some a)) q = (b, q2, evs2)"
    by (cases "async_op e (new_row Transfer n None None None (Some a)) q") auto
  note c = async_op_cases [OF a]
  show "success res = transfer_ok e st q n"
    using assms a c
    by (auto simp: transfer_def transfer_ok_def failure_def new_row_def async_op_def
        queue_append_def split: if_splits bresp.splits)
  show "\<not> success res \<Longrightarrow> q1 = q \<and> error res = transfer_error e st q n"
    using assms a c
    by (auto simp: transfer_def transfer_error_def failure_def new_row_def async_op_def
        queue_append_def split: if_splits bresp.splits)
  show "success res \<Longrightarrow> evs1 = [EvBroadcast Transfer n]"
    using assms a c
    by (auto simp: transfer_def failure_def new_row_def split: if_splits bresp.splits)
  show "\<exists>ext. q1 = q @ ext \<and> (\<forall>r \<in> set ext. category r = Transfer \<and> fqu r = n)"
    using assms a c
    by (auto simp: transfer_def failure_def new_row_def split: if_splits bresp.splits)
qed


lemma request_transfer_cases:
  assumes "request_transfer e st q (fqu u) addr = (res, q1, evs1)"
    and "transfer_address u = Some addr"
  shows "success res = (already_there e u \<or> transfer_ok e st q (fqu u))"
    and "\<not> success res \<Longrightarrow> q1 = q \<and> error res = transfer_error e st q (fqu u)"
    and "success res \<Longrightarrow> \<not> already_there e u \<Longrightarrow> evs1 = [EvBroadcast Transfer (fqu u)]"
    and "\<exists>ext. q1 = q @ ext \<and> (\<forall>r \<in> set ext. category r = Transfer \<and> fqu r = fqu u)"
proof -
  show "success res = (already_there e u \<or> transfer_ok e st q (fqu u))"
  proof (cases "already_there e u")
    case True
    with assms show ?thesis
      by (auto simp: request_transfer_def already_there_def victory_def
          split: name_rec.splits option.splits if_splits)
  next
    case False
    with assms have "transfer e st q (fqu u) addr = (res, q1, evs1)"
      by (auto simp: request_transfer_def already_there_def
          split: name_rec.splits option.splits if_splits)
    from transfer_cases(1) [OF this] False show ?thesis by simp
  qed
  show "\<not> success res \<Longrightarrow> q1 = q \<and> error res = transfer_error e st q (fqu u)"
  proof -
    assume ns: "\<not> success res"
    with assms have "transfer e st q (fqu u) addr = (res, q1, evs1)"
      by (auto simp: request_transfer_def victory_def
          split: name_rec.splits option.splits if_splits)
    from transfer_cases(2) [OF this ns] show ?thesis .
  qed
  show "success res \<Longrightarrow> \<not> already_there e u \<Longrightarrow> evs1 = [EvBroadcast Transfer (fqu u)]"
  proof -
    assume s: "success res" and na: "\<not> already_there e u"
    with assms have "transfer e st q (fqu u) addr = (res, q1, evs1)"
      by (auto simp: request_transfer_def already_there_def
          split: name_rec.splits option.splits if_splits)
    from transfer_cases(3) [OF this s] show ?thesis .
  qed
  show "\<exists>ext. q1 = q @ ext \<and> (\<forall>r \<in> set ext. category r = Transfer \<and> fqu r = fqu u)"
  proof (cases "transfer e st q (fqu u) addr = (res, q1, evs1)")
    case True
    from transfer_cases(4) [OF True] show ?thesis .
  next
    case False
    with assms have "q1 = q"
      by (auto simp: request_transfer_def split: name_rec.splits option.splits if_splits)
    then show ?thesis by simp
  qed
qed

lemma slice_append_other:
  "\<forall>r \<in> set ext. fqu r = m \<Longrightarrow> m \<noteq> n \<Longrightarrow> slice n (q @ ext) = slice n q"
  by (auto simp: slice_def filter_empty_conv)

lemma transfer_name_other:
  assumes "transfer_name e st v q = (cleared, q1, evs1)" and "fqu v \<noteq> n"
  shows "slice n q1 = slice n q"
proof (cases "transfer_address v")
  case None
  with assms show ?thesis by (auto simp: transfer_name_def slice_removeall)
next
  case (Some addr)
  obtain res q2 evs2 where r: "request_transfer e st q (fqu v) addr = (res, q2, evs2)"
    by (cases "request_transfer e st q (fqu v) addr") auto
  from request_transfer_cases(4) [OF r Some] obtain ext where
    ext: "q2 = q @ ext" "\<forall>r \<in> set ext. fqu r = fqu v" by auto
  from slice_append_other [OF ext(2) assms(2)] ext(1) have s2: "slice n q2 = slice n q" by simp
  from assms Some r have "q1 = queue_removeall [v] q2 \<or>
      q1 = queue_add_error_msg Update (fqu v) (error res) q2"
    by (auto simp: transfer_name_def split: if_splits)
  with s2 assms(2) show ?thesis by (auto simp: slice_removeall slice_add_error)
qed

lemma not_in_queue_removeall:
  "category u = c \<Longrightarrow> \<not> in_queue c (fqu u) (queue_removeall [u] q)"
  by (auto simp: in_queue_def queue_removeall_def same_key_def list_ex_iff)

lemma annotated_in_queue:
  "u \<in> set q \<Longrightarrow> category u = c \<Longrightarrow>
   u\<lparr>errors := errors u @ [msg]\<rparr> \<in> set (queue_add_error_msg c (fqu u) msg q)"
  by (force simp: queue_add_error_msg_def)

lemma transfer_name_self:
  assumes "transfer_name e st u q = (cleared, q1, evs1)"
    and "u \<in> set q" and "category u = Update"
  shows "cleared = (transfer_address u = None \<or> already_there e u \<or> transfer_ok e st q (fqu u))"
    and "cleared \<Longrightarrow> \<not> in_queue Update (fqu u) q1"
    and "\<not> cleared \<Longrightarrow> u\<lparr>errors := errors u @ [transfer_error e st q (fqu u)]\<rparr> \<in> set q1"
    and "cleared \<Longrightarrow> transfer_address u \<noteq> None \<Longrightarrow> \<not> already_there e u \<Longrightarrow>
           EvBroadcast Transfer (fqu u) \<in> set evs1"
proof -
  show "cleared = (transfer_address u = None \<or> already_there e u \<or> transfer_ok e st q (fqu u))"
  proof (cases "transfer_address u")
    case None
    with assms show ?thesis by (simp add: transfer_name_def)
  next
    case (Some addr)
    obtain res q2 evs2 where r: "request_transfer e st q (fqu u) addr = (res, q2, evs2)"
      by (cases "request_transfer e st q (fqu u) addr") auto
    from assms(1) Some r have "cleared = success res"
      by (auto simp: transfer_name_def split: if_splits)
    with request_transfer_cases(1) [OF r Some] Some show ?thesis by simp
  qed
  show "cleared \<Longrightarrow> \<not> in_queue Update (fqu u) q1"
  proof -
    assume c: cleared
    with assms(1) obtain q2 where "q1 = queue_removeall [u] q2"
      by (auto simp: transfer_name_def split: option.splits prod.splits if_splits)
    with assms(3) show ?thesis by (simp add: not_in_queue_removeall)
  qed
  show "\<not> cleared \<Longrightarrow> u\<lparr>errors := errors u @ [transfer_error e st q (fqu u)]\<rparr> \<in> set q1"
  proof -
    assume nc: "\<not> cleared"
    with assms(1) obtain addr where Some: "transfer_address u = Some addr"
      by (cases "transfer_address u") (auto simp: transfer_name_def)
    obtain res q2 evs2 where r: "request_transfer e st q (fqu u) addr = (res, q2, evs2)"
      by (cases "request_transfer e st q (fqu u) addr") auto
    from assms(1) Some r nc have ns: "\<not> success res"
      and q1: "q1 = queue_add_error_msg Update (fqu u) (error res) q2"
      by (auto simp: transfer_name_def split: if_splits)
    from request_transfer_cases(2) [OF r Some ns] q1
    have "q1 = queue_add_error_msg Update (fqu u) (transfer_error e st q (fqu u)) q" by simp
    with assms(2,3) show ?thesis by (simp add: annotated_in_queue)
  qed
  show "cleared \<Longrightarrow> transfer_address u \<noteq> None \<Longrightarrow> \<not> already_there e u \<Longrightarrow>
           EvBroadcast Transfer (fqu u) \<in> set evs1"
  proof -
    assume c: cleared and ta: "transfer_address u \<noteq> None" and na: "\<not> already_there e u"
    from ta obtain addr where Some: "transfer_address u = Some addr" by auto
    obtain res q2 evs2 where r: "request_transfer e st q (fqu u) addr = (res, q2, evs2)"
      by (cases "request_transfer e st q (fqu u) addr") auto
    from assms(1) Some r c have s: "success res" and ev: "evs1 = EvChainRecord (fqu u) # evs2"
      by (auto simp: transfer_name_def split: if_splits)
    from request_transfer_cases(3) [OF r Some s na] ev show ?thesis by simp
  qed
qed


lemma transfer_ok_slice:
  "slice n q1 = slice n q \<Longrightarrow> transfer_ok e st q1 n = transfer_ok e st q n"
  using in_queue_slice [of Transfer n q1] in_queue_slice [of Transfer n q]
  by (simp add: transfer_ok_def)

lemma transfer_error_slice:
  "slice n q1 = slice n q \<Longrightarrow> transfer_error e st q1 n = transfer_error e st q n"
  using in_queue_slice [of Transfer n q1] in_queue_slice [of Transfer n q]
  by (simp add: transfer_error_def)

lemma mem_slice_eq:
  "slice (fqu r) q1 = slice (fqu r) q \<Longrightarrow> (r \<in> set q1) = (r \<in> set q)"
  using mem_slice [of r q1] mem_slice [of r q] by simp

lemma in_queue_slice_eq:
  "slice n q1 = slice n q \<Longrightarrow> in_queue c n q1 = in_queue c n q"
  using in_queue_slice [of c n q1] in_queue_slice [of c n q] by simp

lemma transfer_names_loop_mono:
  "transfer_names_loop e st skip us failed q evs = (f', q', evs') \<Longrightarrow>
   set failed \<subseteq> set f' \<and> set evs \<subseteq> set evs'"
proof (induction us arbitrary: failed q evs)
  case Nil
  then show ?case by simp
next
  case (Cons v vs)
  show ?case
  proof (cases "fqu v \<in> set skip")
    case True
    with Cons.prems have "transfer_names_loop e st skip vs failed q evs = (f', q', evs')" by simp
    from Cons.IH [OF this] show ?thesis .
  next
    case False
    obtain c q1 evs1 where t: "transfer_name e st v q = (c, q1, evs1)"
      by (cases "transfer_name e st v q") auto
    with False Cons.prems
    have "transfer_names_loop e st skip vs (if c then failed else failed @ [fqu v]) q1
            (evs @ evs1) = (f', q', evs')" by simp
    from Cons.IH [OF this] show ?thesis by (auto split: if_splits)
  qed
qed

lemma transfer_names_loop_other:
  "transfer_names_loop e st skip us failed q evs = (f', q', evs') \<Longrightarrow>
   n \<notin> fqu ` set us \<Longrightarrow> slice n q' = slice n q"
proof (induction us arbitrary: failed q evs)
  case Nil
  then show ?case by simp
next
  case (Cons v vs)
  from Cons.prems(2) have nv: "fqu v \<noteq> n" and nvs: "n \<notin> fqu ` set vs" by auto
  show ?case
  proof (cases "fqu v \<in> set skip")
    case True
    with Cons.prems have "transfer_names_loop e st skip vs failed q evs = (f', q', evs')" by simp
    from Cons.IH [OF this nvs] show ?thesis .
  next
    case False
    obtain c q1 evs1 where t: "transfer_name e st v q = (c, q1, evs1)"
      by (cases "transfer_name e st v q") auto
    with False Cons.prems
    have "transfer_names_loop e st skip vs (if c then failed else failed @ [fqu v]) q1
            (evs @ evs1) = (f', q', evs')" by simp
    from Cons.IH [OF this nvs] transfer_name_other [OF t nv] show ?thesis by simp
  qed
qed

lemma transfer_names_loop_row:
  assumes "distinct (map fqu us)" and "u \<in> set us" and "fqu u \<notin> set skip"
    and "u \<in> set q" and "category u = Update"
    and "transfer_names_loop e st skip us failed q evs = (f', q', evs')"
  shows "if transfer_address u = None \<or> already_there e u \<or> transfer_ok e st q (fqu u)
         then \<not> in_queue Update (fqu u) q' \<and>
              (transfer_address u \<noteq> None \<longrightarrow> \<not> already_there e u \<longrightarrow>
                 EvBroadcast Transfer (fqu u) \<in> set evs')
         else u\<lparr>errors := errors u @ [transfer_error e st q (fqu u)]\<rparr> \<in> set q' \<and>
              fqu u \<in> set f'"
  using assms
proof (induction us arbitrary: failed q evs)
  case Nil
  then show ?case by simp
next
  case (Cons v vs)
  show ?case
  proof (cases "fqu v = fqu u")
    case True
    from Cons.prems(1) have notin: "fqu v \<notin> fqu ` set vs" by simp
    with True Cons.prems(2) have vu: "v = u" by force
    obtain c q1 evs1 where t: "transfer_name e st u q = (c, q1, evs1)"
      by (cases "transfer_name e st u q") auto
    with vu Cons.prems(3,6)
    have rest: "transfer_names_loop e st skip vs (if c then failed else failed @ [fqu u]) q1
            (evs @ evs1) = (f', q', evs')" by simp
    from notin True have "fqu u \<notin> fqu ` set vs" by simp
    from transfer_names_loop_other [OF rest this]
    have sl: "slice (fqu u) q' = slice (fqu u) q1" .
    note mono = transfer_names_loop_mono [OF rest]
    note self = transfer_name_self [OF t Cons.prems(4,5)]
    show ?thesis
    proof (cases c)
      case True
      with self(1) have d: "transfer_address u = None \<or> already_there e u \<or>
          transfer_ok e st q (fqu u)" by simp
      from self(2) True in_queue_slice_eq [OF sl, of Update]
      have "\<not> in_queue Update (fqu u) q'" by simp
      moreover from self(4) True mono
      have "transfer_address u \<noteq> None \<longrightarrow> \<not> already_there e u \<longrightarrow>
                 EvBroadcast Transfer (fqu u) \<in> set evs'" by auto
      ultimately have concl: "\<not> in_queue Update (fqu u) q' \<and>
              (transfer_address u \<noteq> None \<longrightarrow> \<not> already_there e u \<longrightarrow>
                 EvBroadcast Transfer (fqu u) \<in> set evs')" by simp
      show ?thesis by (subst if_P [OF d]) (rule concl)
    next
      case False
      with self(1) have d: "\<not> (transfer_address u = None \<or> already_there e u \<or>
          transfer_ok e st q (fqu u))" by simp
      let ?a = "u\<lparr>errors := errors u @ [transfer_error e st q (fqu u)]\<rparr>"
      from self(3) False have "?a \<in> set q1" by simp
      moreover have "fqu ?a = fqu u" by simp
      ultimately have "?a \<in> set q'" using mem_slice_eq [of ?a q' q1] sl by simp
      moreover from mono False have "fqu u \<in> set f'" by auto
      ultimately have concl: "?a \<in> set q' \<and> fqu u \<in> set f'" by simp
      show ?thesis by (subst if_not_P [OF d]) (rule concl)
    qed
  next
    case False
    with Cons.prems(2) have uvs: "u \<in> set vs" by auto
    from Cons.prems(1) have dvs: "distinct (map fqu vs)" by simp
    show ?thesis
    proof (cases "fqu v \<in> set skip")
      case True
      with Cons.prems(6)
      have "transfer_names_loop e st skip vs failed q evs = (f', q', evs')" by simp
      from Cons.IH [OF dvs uvs Cons.prems(3,4,5) this] show ?thesis .
    next
      case nskip: False
      obtain c q1 evs1 where t: "transfer_name e st v q = (c, q1, evs1)"
        by (cases "transfer_name e st v q") auto
      with nskip Cons.prems(6)
      have rest: "transfer_names_loop e st skip vs (if c then failed else failed @ [fqu v]) q1
            (evs @ evs1) = (f', q', evs')" by simp
      from transfer_name_other [OF t False] have sl: "slice (fqu u) q1 = slice (fqu u) q" .
      from mem_slice_eq [OF sl] Cons.prems(4) have uq1: "u \<in> set q1" by simp
      have ok: "transfer_ok e st q1 (fqu u) = transfer_ok e st q (fqu u)"
        by (rule transfer_ok_slice [OF sl])
      have er: "transfer_error e st q1 (fqu u) = transfer_error e st q (fqu u)"
        by (rule transfer_error_slice [OF sl])
      from Cons.IH [OF dvs uvs Cons.prems(3) uq1 Cons.prems(5) rest]
      show ?thesis by (simp only: ok er)
    qed
  qed
qed

lemma accepted_names_distinct:
  assumes "queue_unique q"
  shows "distinct (map fqu (queue_find_accepted conf c q))"
proof -
  let ?us = "queue_find_accepted conf c q"
  from assms have "distinct (map (\<lambda>r. (category r, fqu r)) ?us)"
    by (simp add: queue_unique_def queue_find_accepted_def distinct_map_filter)
  then have d: "distinct ?us" and inj: "inj_on (\<lambda>r. (category r, fqu r)) (set ?us)"
    by (simp_all add: distinct_map)
  have cat: "\<forall>r \<in> set ?us. category r = c"
    by (simp add: queue_find_accepted_def)
  have "inj_on fqu (set ?us)"
  proof (rule inj_onI)
    fix x y assume "x \<in> set ?us" "y \<in> set ?us" "fqu x = fqu y"
    with cat have "(category x, fqu x) = (category y, fqu y)" by simp
    with inj \<open>x \<in> set ?us\<close> \<open>y \<in> set ?us\<close> show "x = y" by (auto dest: inj_onD)
  qed
  with d show ?thesis by (simp add: distinct_map)
qed

text \<open>
  C2. Let the queue hold one row per (category, fqu), and let \<open>u\<close> be a confirmed update
  row whose name is not in the skip list. After the transfer step the name has no update
  row left if and only if the row's transfer address is \<^verbatim>\<open>None\<close>, or the chain
  record already shows the name at the transfer address, or the transfer issuer
  broadcasts successfully. Otherwise the row is still in the queue, annotated with the
  error of the issuer, its name is in the list of failed names and the step answers
  \<^verbatim>\<open>{'error': 'Not all names transferred'}\<close>. Hence a row with a transfer address
  is only dropped when the chain shows the name at that address or a transfer has been
  broadcast for it.
\<close>

theorem transfer_names_clears_row:
  assumes "queue_unique q"
    and "u \<in> set (queue_find_accepted (confirmed e) Update q)"
    and "fqu u \<notin> set skip"
    and "transfer_names e st skip q = (ret, failed, q', evs)"
  shows "((\<not> in_queue Update (fqu u) q') =
           (transfer_address u = None \<or> already_there e u \<or> transfer_ok e st q (fqu u)))
       \<and> (in_queue Update (fqu u) q' \<longrightarrow>
           u\<lparr>errors := errors u @ [transfer_error e st q (fqu u)]\<rparr> \<in> set q' \<and>
           fqu u \<in> set failed \<and> ret = RError ''Not all names transferred'')
       \<and> (\<not> in_queue Update (fqu u) q' \<longrightarrow> transfer_address u \<noteq> None \<longrightarrow>
           already_there e u \<or> EvBroadcast Transfer (fqu u) \<in> set evs)"
proof -
  let ?us = "queue_find_accepted (confirmed e) Update q"
  from assms(4) have loop: "transfer_names_loop e st skip ?us [] q [] = (failed, q', evs)"
    and ret: "ret = (if failed = [] then RStatus else RError ''Not all names transferred'')"
    by (auto simp: transfer_names_def split: prod.splits)
  from assms(2) have uq: "u \<in> set q" and cu: "category u = Update"
    by (simp_all add: queue_find_accepted_def)
  note row = transfer_names_loop_row [OF accepted_names_distinct [OF assms(1)] assms(2,3) uq cu loop]
  let ?a = "u\<lparr>errors := errors u @ [transfer_error e st q (fqu u)]\<rparr>"
  have ann: "?a \<in> set q' \<Longrightarrow> in_queue Update (fqu u) q'"
    using cu by (auto simp: in_queue_def list_ex_iff intro!: bexI [of _ ?a])
  have 1: "(\<not> in_queue Update (fqu u) q') =
           (transfer_address u = None \<or> already_there e u \<or> transfer_ok e st q (fqu u))"
    using row ann by (auto split: if_splits)
  have 2: "in_queue Update (fqu u) q' \<longrightarrow>
           ?a \<in> set q' \<and> fqu u \<in> set failed \<and> ret = RError ''Not all names transferred''"
    using row ret by (auto split: if_splits)
  have 3: "\<not> in_queue Update (fqu u) q' \<longrightarrow> transfer_address u \<noteq> None \<longrightarrow>
           already_there e u \<or> EvBroadcast Transfer (fqu u) \<in> set evs"
    using row ann by (auto split: if_splits)
  from 1 2 3 show ?thesis by simp
qed

text \<open>A run: the first row has no transfer address, the broadcast for the second fails,
  the broadcast for the third succeeds.\<close>

definition env1 :: env where
  "env1 = env0\<lparr>broadcast :=
     (\<lambda>c n. if n = ''fail.id'' then BErr ''not enough funds'' None else BOk (''tx-'' @ n) None)\<rparr>"

definition row_done :: qrow where
  "row_done = new_row Update ''alice.id'' (Some ''zf'') (Some ''h1'') None None\<lparr>tx_hash := ''tx1''\<rparr>"

definition row_fail :: qrow where
  "row_fail = new_row Update ''fail.id'' (Some ''zf'') (Some ''h2'') None (Some ''addr-new'')\<lparr>tx_hash := ''tx2''\<rparr>"

definition row_move :: qrow where
  "row_move = new_row Update ''move.id'' (Some ''zf'') (Some ''h3'') None (Some ''addr-new'')\<lparr>tx_hash := ''tx3''\<rparr>"

definition q_after :: queue where
  "q_after = [row_fail\<lparr>errors := [Some ''not enough funds'']\<rparr>,
              new_row Transfer ''move.id'' None None None (Some ''addr-new'')
                \<lparr>tx_hash := ''tx-move.id''\<rparr>]"

lemma transfer_names_run:
  "transfer_names env1 unlocked_state [] [row_done, row_fail, row_move]
     = (RError ''Not all names transferred'', [''fail.id''], q_after,
        [EvChainRecord ''fail.id'', EvBroadcast Transfer ''fail.id'',
         EvChainRecord ''move.id'', EvBroadcast Transfer ''move.id''])"
  by (simp add: transfer_names_def queue_find_accepted_def env1_def env0_def row_done_def
      row_fail_def row_move_def new_row_def transfer_name_def request_transfer_def
      transfer_def wallet_locked_def unlocked_state_def async_op_def queue_append_def
      queue_removeall_def queue_add_error_msg_def same_key_def failure_def q_after_def)

theorem transfer_names_clears_row_witness:
  "queue_unique [row_done, row_fail, row_move] \<and>
   row_fail \<in> set (queue_find_accepted (confirmed env1) Update [row_done, row_fail, row_move]) \<and>
   row_move \<in> set (queue_find_accepted (confirmed env1) Update [row_done, row_fail, row_move]) \<and>
   in_queue Update ''fail.id'' q_after \<and>
   \<not> transfer_ok env1 unlocked_state [row_done, row_fail, row_move] ''fail.id'' \<and>
   \<not> in_queue Update ''move.id'' q_after \<and>
   transfer_ok env1 unlocked_state [row_done, row_fail, row_move] ''move.id''"
proof -
  have u: "queue_unique [row_done, row_fail, row_move]"
    by (simp add: queue_unique_def row_done_def row_fail_def row_move_def new_row_def)
  have m1: "row_fail \<in> set (queue_find_accepted (confirmed env1) Update
      [row_done, row_fail, row_move])"
    by (simp add: queue_find_accepted_def env1_def env0_def row_done_def row_fail_def
        row_move_def new_row_def)
  have m2: "row_move \<in> set (queue_find_accepted (confirmed env1) Update
      [row_done, row_fail, row_move])"
    by (simp add: queue_find_accepted_def env1_def env0_def row_done_def row_fail_def
        row_move_def new_row_def)
  have s1: "fqu row_fail \<notin> set []" and s2: "fqu row_move \<notin> set []" by simp_all
  have a: "\<not> already_there env1 row_fail" "\<not> already_there env1 row_move"
    "transfer_address row_fail \<noteq> None" "transfer_address row_move \<noteq> None"
    "fqu row_fail = ''fail.id''" "fqu row_move = ''move.id''"
    by (simp_all add: already_there_def env1_def env0_def row_fail_def row_move_def new_row_def)
  have q: "in_queue Update ''fail.id'' q_after" "\<not> in_queue Update ''move.id'' q_after"
    by (simp_all add: q_after_def row_fail_def new_row_def)
  from transfer_names_clears_row [OF u m1 s1 transfer_names_run]
    transfer_names_clears_row [OF u m2 s2 transfer_names_run] u m1 m2 a q
  show ?thesis by simp
qed




section \<open>Setting and reading the wallet\<close>

text \<open>
  The key functions of \<^verbatim>\<open>virtualchain\<close>, \<^verbatim>\<open>keylib\<close> and \<^verbatim>\<open>..keys\<close> that
  \<^verbatim>\<open>set_wallet\<close> calls are outside the sources at hand; they are parameters.
  \<open>public_key_hex k\<close> is \<^verbatim>\<open>ECPrivateKey(k).public_key().to_hex()\<close>, taken to
  answer for every key that passes \<^verbatim>\<open>is_singlesig_hex\<close>; \<open>get_pubkey_format\<close> answers
  the name of a format, such as \<^verbatim>\<open>'hex'\<close> or \<^verbatim>\<open>'hex_compressed'\<close>.
\<close>

record keylib =
  is_singlesig :: "privkey_info \<Rightarrow> bool"
  is_multisig :: "privkey_info \<Rightarrow> bool"
  is_singlesig_hex :: "privkey_info \<Rightarrow> bool"
  public_key_hex :: "privkey_info \<Rightarrow> string"
  get_pubkey_format :: "string \<Rightarrow> string"
  decompress :: "string \<Rightarrow> string"

text \<open>A keypair is a pair of an address (or public key) and the private-key information;
  either may be \<^verbatim>\<open>None\<close>. \<^verbatim>\<open>assert x\<close> holds for a value that is neither
  \<^verbatim>\<open>None\<close> nor empty.\<close>

type_synonym keypair = "string option \<times> privkey_info option"

definition truthy_pair :: "keypair \<Rightarrow> bool" where
  "truthy_pair kp =
     ((case fst kp of None \<Rightarrow> False | Some a \<Rightarrow> a \<noteq> []) \<and>
      (case snd kp of None \<Rightarrow> False | Some k \<Rightarrow> truthy_key k))"

text \<open>Lines 1048-1051: the data public key, decompressed when it is in compressed hex
  form.\<close>

definition derive_data_pubkey :: "keylib \<Rightarrow> privkey_info \<Rightarrow> string" where
  "derive_data_pubkey K k =
     (let p = public_key_hex K k
      in if get_pubkey_format K p = ''hex_compressed'' then decompress K p else p)"

text \<open>\<^verbatim>\<open>set_wallet\<close>, lines 1010-1061: \<^verbatim>\<open>{'error': msg}\<close> or \<^verbatim>\<open>{'success': True}\<close>, and
  the state.\<close>

definition set_wallet ::
  "keylib \<Rightarrow> registrar_state \<Rightarrow> keypair \<Rightarrow> keypair \<Rightarrow> keypair
     \<Rightarrow> (string + unit) \<times> registrar_state" where
  "set_wallet K st payment_keypair owner_keypair data_keypair =
     (if \<not> (truthy_pair payment_keypair \<and> truthy_pair owner_keypair \<and> truthy_pair data_keypair)
      then (Inl ''Missing wallet information'', st)
      else (case (snd payment_keypair, snd owner_keypair, snd data_keypair) of
              (Some pk, Some ok, Some dk) \<Rightarrow>
                if \<not> is_singlesig K pk \<and> \<not> is_multisig K pk then
                  (Inl ''Invalid payment key info'', st)
                else if \<not> is_singlesig K ok \<and> \<not> is_multisig K ok then
                  (Inl ''Invalid owner key info'', st)
                else if \<not> is_singlesig_hex K dk then
                  (Inl ''Invalid data key info'', st)
                else
                  (Inr (),
                   st\<lparr>payment_address := fst payment_keypair,
                      owner_address := fst owner_keypair,
                      data_pubkey := Some (derive_data_pubkey K dk),
                      payment_privkey_info := Some pk,
                      owner_privkey_info := Some ok,
                      data_privkey_info := Some dk\<rparr>)
            | _ \<Rightarrow> (Inl ''Missing wallet information'', st)))"

text \<open>The dictionary \<^verbatim>\<open>get_wallet\<close> returns (lines 1101-1132).\<close>

record wallet_data =
  w_payment_address :: "string option"
  w_owner_address :: "string option"
  w_data_pubkey :: "string option"
  w_payment_privkey :: "privkey_info option"
  w_owner_privkey :: "privkey_info option"
  w_data_privkey :: "privkey_info option"
  w_error :: "string option"

definition get_wallet :: "registrar_state \<Rightarrow> wallet_data" where
  "get_wallet st =
     \<lparr>w_payment_address = payment_address st,
      w_owner_address = owner_address st,
      w_data_pubkey = data_pubkey st,
      w_payment_privkey = payment_privkey_info st,
      w_owner_privkey = owner_privkey_info st,
      w_data_privkey = data_privkey_info st,
      w_error = (if payment_privkey_info st = None \<or> owner_privkey_info st = None \<or>
                    data_privkey_info st = None
                 then Some ''Failed to load private keys (wrong password?)'' else None)\<rparr>"

text \<open>
  What the form of the stored data public key rests on in the key library: the
  hex form of a public key derived from a single-signature hex private key is
  \<^verbatim>\<open>'hex'\<close> or \<^verbatim>\<open>'hex_compressed'\<close>, and decompressing a compressed key gives a key
  of the format \<^verbatim>\<open>'hex'\<close>.
\<close>

definition keylib_formats :: "keylib \<Rightarrow> bool" where
  "keylib_formats K =
     ((\<forall>k. is_singlesig_hex K k \<longrightarrow>
           get_pubkey_format K (public_key_hex K k) = ''hex'' \<or>
           get_pubkey_format K (public_key_hex K k) = ''hex_compressed'') \<and>
      (\<forall>p. get_pubkey_format K p = ''hex_compressed'' \<longrightarrow>
           get_pubkey_format K (decompress K p) = ''hex''))"

lemma set_wallet_accepted:
  assumes "set_wallet K st (pa, pk) (oa, ok) (da, dk) = (Inr (), st')"
  shows "\<exists>pk' ok' dk'. pk = Some pk' \<and> ok = Some ok' \<and> dk = Some dk' \<and> is_singlesig_hex K dk' \<and>
           (is_singlesig K pk' \<or> is_multisig K pk') \<and> (is_singlesig K ok' \<or> is_multisig K ok') \<and>
           st' = st\<lparr>payment_address := pa, owner_address := oa,
                    data_pubkey := Some (derive_data_pubkey K dk'),
                    payment_privkey_info := Some pk', owner_privkey_info := Some ok',
                    data_privkey_info := Some dk'\<rparr>"
  using assms
  by (auto simp: set_wallet_def split: if_splits option.splits)

lemma derive_data_pubkey_format:
  assumes "keylib_formats K" and "is_singlesig_hex K k"
  shows "get_pubkey_format K (derive_data_pubkey K k) = ''hex''"
proof (cases "get_pubkey_format K (public_key_hex K k) = ''hex_compressed''")
  case True
  with assms(1) show ?thesis by (simp add: derive_data_pubkey_def keylib_formats_def)
next
  case False
  with assms have "get_pubkey_format K (public_key_hex K k) = ''hex''"
    by (auto simp: keylib_formats_def)
  with False show ?thesis by (simp add: derive_data_pubkey_def)
qed

text \<open>The tests of lines 1023-1044 on the three keypairs: each part is truthy, the payment
  and owner keys are single-signature or multisig, the data key is single-signature
  hex.\<close>

definition acceptable_keys :: "keylib \<Rightarrow> keypair \<Rightarrow> keypair \<Rightarrow> keypair \<Rightarrow> bool" where
  "acceptable_keys K pay own dat =
     (truthy_pair pay \<and> truthy_pair own \<and> truthy_pair dat \<and>
      (case snd pay of None \<Rightarrow> False | Some k \<Rightarrow> is_singlesig K k \<or> is_multisig K k) \<and>
      (case snd own of None \<Rightarrow> False | Some k \<Rightarrow> is_singlesig K k \<or> is_multisig K k) \<and>
      (case snd dat of None \<Rightarrow> False | Some k \<Rightarrow> is_singlesig_hex K k))"

lemma set_wallet_accepts:
  assumes "acceptable_keys K pay own dat"
  shows "\<exists>pk ok dk. snd pay = Some pk \<and> snd own = Some ok \<and> snd dat = Some dk \<and>
           is_singlesig_hex K dk \<and>
           set_wallet K st pay own dat
             = (Inr (),
                st\<lparr>payment_address := fst pay, owner_address := fst own,
                   data_pubkey := Some (derive_data_pubkey K dk),
                   payment_privkey_info := Some pk, owner_privkey_info := Some ok,
                   data_privkey_info := Some dk\<rparr>)"
proof -
  from assms obtain pk ok dk where
    k: "snd pay = Some pk" "snd own = Some ok" "snd dat = Some dk"
    by (auto simp: acceptable_keys_def split: option.splits)
  with assms have t: "truthy_pair pay" "truthy_pair own" "truthy_pair dat"
    "is_singlesig K pk \<or> is_multisig K pk" "is_singlesig K ok \<or> is_multisig K ok"
    "is_singlesig_hex K dk"
    by (simp_all add: acceptable_keys_def)
  from k t have "set_wallet K st pay own dat
             = (Inr (),
                st\<lparr>payment_address := fst pay, owner_address := fst own,
                   data_pubkey := Some (derive_data_pubkey K dk),
                   payment_privkey_info := Some pk, owner_privkey_info := Some ok,
                   data_privkey_info := Some dk\<rparr>)"
    by (auto simp: set_wallet_def)
  with k t(6) show ?thesis by blast
qed

lemma set_wallet_refuses:
  assumes "\<not> acceptable_keys K pay own dat"
  shows "fst (set_wallet K st pay own dat) \<noteq> Inr () \<and> snd (set_wallet K st pay own dat) = st"
  using assms
  by (auto simp: set_wallet_def acceptable_keys_def split: option.splits)

text \<open>
  C9. \<open>set_wallet\<close> accepts a set of wallet keys exactly when each part of the three
  keypairs is given, the payment and owner keys are single-signature or multisig and
  the data key is single-signature hex; a set it refuses leaves the wallet as it was.
  For every set it accepts, a following \<open>get_wallet\<close> returns the payment and owner
  addresses that were passed in and the three private keys, without an error, and its
  data public key is the one derived from the data private key (the public key passed in
  is not stored), decompressed when the derivation is in compressed hex form; with a key
  library whose formats are as described above, the stored key has the format
  \<^verbatim>\<open>'hex'\<close>.
\<close>

theorem set_wallet_get_wallet:
  "((fst (set_wallet K st pay own dat) = Inr ()) = acceptable_keys K pay own dat) \<and>
   (\<not> acceptable_keys K pay own dat \<longrightarrow> snd (set_wallet K st pay own dat) = st) \<and>
   (acceptable_keys K pay own dat \<longrightarrow>
      w_payment_address (get_wallet (snd (set_wallet K st pay own dat))) = fst pay \<and>
      w_owner_address (get_wallet (snd (set_wallet K st pay own dat))) = fst own \<and>
      w_payment_privkey (get_wallet (snd (set_wallet K st pay own dat))) = snd pay \<and>
      w_owner_privkey (get_wallet (snd (set_wallet K st pay own dat))) = snd own \<and>
      w_data_privkey (get_wallet (snd (set_wallet K st pay own dat))) = snd dat \<and>
      w_error (get_wallet (snd (set_wallet K st pay own dat))) = None \<and>
      (\<exists>k. snd dat = Some k \<and>
           w_data_pubkey (get_wallet (snd (set_wallet K st pay own dat)))
             = Some (derive_data_pubkey K k) \<and>
           (keylib_formats K \<longrightarrow> get_pubkey_format K (derive_data_pubkey K k) = ''hex'')))"
proof (intro conjI impI)
  show "(fst (set_wallet K st pay own dat) = Inr ()) = acceptable_keys K pay own dat"
  proof (cases "acceptable_keys K pay own dat")
    case True
    from set_wallet_accepts [OF True, of st] True show ?thesis by auto
  next
    case False
    from set_wallet_refuses [OF False, of st] False show ?thesis by simp
  qed
next
  assume "\<not> acceptable_keys K pay own dat"
  from set_wallet_refuses [OF this, of st] show "snd (set_wallet K st pay own dat) = st" by simp
next
  assume a: "acceptable_keys K pay own dat"
  from set_wallet_accepts [OF a, of st] obtain pk ok dk where
    k: "snd pay = Some pk" "snd own = Some ok" "snd dat = Some dk" "is_singlesig_hex K dk" and
    r: "set_wallet K st pay own dat
          = (Inr (),
             st\<lparr>payment_address := fst pay, owner_address := fst own,
                data_pubkey := Some (derive_data_pubkey K dk),
                payment_privkey_info := Some pk, owner_privkey_info := Some ok,
                data_privkey_info := Some dk\<rparr>)"
    by blast
  from k r show "w_payment_address (get_wallet (snd (set_wallet K st pay own dat))) = fst pay"
    by (simp add: get_wallet_def)
  from k r show "w_owner_address (get_wallet (snd (set_wallet K st pay own dat))) = fst own"
    by (simp add: get_wallet_def)
  from k r show "w_payment_privkey (get_wallet (snd (set_wallet K st pay own dat))) = snd pay"
    by (simp add: get_wallet_def)
  from k r show "w_owner_privkey (get_wallet (snd (set_wallet K st pay own dat))) = snd own"
    by (simp add: get_wallet_def)
  from k r show "w_data_privkey (get_wallet (snd (set_wallet K st pay own dat))) = snd dat"
    by (simp add: get_wallet_def)
  from k r show "w_error (get_wallet (snd (set_wallet K st pay own dat))) = None"
    by (simp add: get_wallet_def)
  from k(4) have "keylib_formats K \<longrightarrow> get_pubkey_format K (derive_data_pubkey K dk) = ''hex''"
    by (simp add: derive_data_pubkey_format)
  with k r show "\<exists>k. snd dat = Some k \<and>
           w_data_pubkey (get_wallet (snd (set_wallet K st pay own dat)))
             = Some (derive_data_pubkey K k) \<and>
           (keylib_formats K \<longrightarrow> get_pubkey_format K (derive_data_pubkey K k) = ''hex'')"
    by (simp add: get_wallet_def)
qed

text \<open>A toy key library: a public key is the private key behind a two-character
  prefix, \<open>''02''\<close> for the compressed form and \<open>''04''\<close> for the uncompressed one.\<close>

definition toy_keylib :: keylib where
  "toy_keylib =
     \<lparr>is_singlesig = (\<lambda>k. case k of KeyString s \<Rightarrow> s \<noteq> [] | KeyDict d \<Rightarrow> False),
      is_multisig = (\<lambda>k. case k of KeyString s \<Rightarrow> False | KeyDict d \<Rightarrow> d \<noteq> []),
      is_singlesig_hex = (\<lambda>k. case k of KeyString s \<Rightarrow> s \<noteq> [] | KeyDict d \<Rightarrow> False),
      public_key_hex = (\<lambda>k. case k of KeyString s \<Rightarrow> ''02'' @ s | KeyDict d \<Rightarrow> []),
      get_pubkey_format = (\<lambda>p. if take 2 p = ''04'' then ''hex'' else ''hex_compressed''),
      decompress = (\<lambda>p. ''04'' @ drop 2 p)\<rparr>"

lemma toy_keylib_formats: "keylib_formats toy_keylib"
  by (simp add: keylib_formats_def toy_keylib_def)

definition pay0 :: keypair where
  "pay0 = (Some ''pay-addr'', Some (KeyString ''aa''))"

definition own0 :: keypair where
  "own0 = (Some ''own-addr'', Some (KeyDict [(''redeem_script'', ''51ae'')]))"

definition dat0 :: keypair where
  "dat0 = (Some ''04zz'', Some (KeyString ''cc''))"

lemma toy_keys_acceptable: "acceptable_keys toy_keylib pay0 own0 dat0"
  by (simp add: acceptable_keys_def truthy_pair_def toy_keylib_def pay0_def own0_def dat0_def)

text \<open>An accepted wallet, whose data public key \<open>''04zz''\<close> as passed in is replaced by the
  derived and decompressed \<open>''04cc''\<close>; and a refused one, with an empty data key.\<close>

theorem set_wallet_get_wallet_witness:
  "fst (set_wallet toy_keylib locked_state pay0 own0 dat0) = Inr () \<and>
   w_payment_address (get_wallet (snd (set_wallet toy_keylib locked_state pay0 own0 dat0)))
     = Some ''pay-addr'' \<and>
   w_owner_address (get_wallet (snd (set_wallet toy_keylib locked_state pay0 own0 dat0)))
     = Some ''own-addr'' \<and>
   w_data_pubkey (get_wallet (snd (set_wallet toy_keylib locked_state pay0 own0 dat0)))
     = Some ''04cc'' \<and>
   get_pubkey_format toy_keylib ''04cc'' = ''hex'' \<and>
   w_error (get_wallet (snd (set_wallet toy_keylib locked_state pay0 own0 dat0))) = None \<and>
   \<not> acceptable_keys toy_keylib pay0 own0 (Some ''04zz'', Some (KeyString [])) \<and>
   fst (set_wallet toy_keylib locked_state pay0 own0 (Some ''04zz'', Some (KeyString [])))
     \<noteq> Inr () \<and>
   snd (set_wallet toy_keylib locked_state pay0 own0 (Some ''04zz'', Some (KeyString [])))
     = locked_state"
proof -
  have d: "derive_data_pubkey toy_keylib (KeyString ''cc'') = ''04cc''"
    by (simp add: derive_data_pubkey_def toy_keylib_def)
  have k: "snd dat0 = Some (KeyString ''cc'')" "fst pay0 = Some ''pay-addr''"
    "fst own0 = Some ''own-addr''"
    by (simp_all add: dat0_def pay0_def own0_def)
  have n: "\<not> acceptable_keys toy_keylib pay0 own0 (Some ''04zz'', Some (KeyString []))"
    by (simp add: acceptable_keys_def truthy_pair_def)
  from set_wallet_get_wallet [of toy_keylib locked_state pay0 own0 dat0]
    set_wallet_get_wallet [of toy_keylib locked_state pay0 own0
      "(Some ''04zz'', Some (KeyString []))"]
    toy_keys_acceptable toy_keylib_formats d k n
  show ?thesis by auto
qed


section \<open>The lockfile\<close>

subsection \<open>Python's \<^verbatim>\<open>strip\<close>, \<^verbatim>\<open>int\<close> and the decimal form of a number\<close>

text \<open>The characters \<^verbatim>\<open>str.strip()\<close> removes: space, tab, newline, vertical tab, form
  feed and carriage return.\<close>

definition is_space :: "char \<Rightarrow> bool" where
  "is_space c = (c \<in> set [CHR '' '', CHR 0x09, CHR 0x0A, CHR 0x0B, CHR 0x0C, CHR 0x0D])"

definition py_strip :: "string \<Rightarrow> string" where
  "py_strip s = rev (dropWhile is_space (rev (dropWhile is_space s)))"

definition is_digit :: "char \<Rightarrow> bool" where
  "is_digit c = (48 \<le> (of_char c :: nat) \<and> (of_char c :: nat) \<le> 57)"

definition digit_of :: "char \<Rightarrow> nat" where
  "digit_of c = of_char c - 48"

definition digits_value :: "string \<Rightarrow> nat" where
  "digits_value s = foldl (\<lambda>a c. 10 * a + digit_of c) 0 s"

definition py_digits :: "string \<Rightarrow> nat option" where
  "py_digits s = (if s \<noteq> [] \<and> list_all is_digit s then Some (digits_value s) else None)"

text \<open>\<^verbatim>\<open>int(s)\<close> of Python 2 on a stripped string: an optional sign, blanks after the
  sign, and at least one decimal digit; anything else raises \<^verbatim>\<open>ValueError\<close>, which
  is \<open>None\<close> here.\<close>

definition py_int :: "string \<Rightarrow> int option" where
  "py_int s =
     (case s of
        [] \<Rightarrow> None
      | c # cs \<Rightarrow>
          if c = CHR ''-'' then map_option (\<lambda>n. - int n) (py_digits (dropWhile is_space cs))
          else if c = CHR ''+'' then map_option int (py_digits (dropWhile is_space cs))
          else map_option int (py_digits s))"

definition digit_char :: "nat \<Rightarrow> char" where
  "digit_char d = char_of (48 + d)"

text \<open>\<^verbatim>\<open>"%s" % n\<close> for a process id \<open>n\<close>.\<close>

function show_nat :: "nat \<Rightarrow> string" where
  "show_nat n = (if n < 10 then [digit_char n] else show_nat (n div 10) @ [digit_char (n mod 10)])"
  by pat_completeness auto
termination
  by (relation "measure id") auto

declare show_nat.simps [simp del]

subsection \<open>The file system and the lock\<close>

text \<open>
  Paths are linked to inodes and inodes hold the data, so that the hard link of
  \<^verbatim>\<open>os.link\<close> and the write through the file descriptor of the temporary file can be
  told apart from a copy.
\<close>

record filesystem =
  links :: "string \<Rightarrow> nat option"
  content :: "nat \<Rightarrow> string"
  next_inode :: nat

definition path_exists :: "filesystem \<Rightarrow> string \<Rightarrow> bool" where
  "path_exists f p = (links f p \<noteq> None)"

definition unlink :: "string \<Rightarrow> filesystem \<Rightarrow> filesystem" where
  "unlink p f = f\<lparr>links := (links f)(p := None)\<rparr>"

text \<open>\<^verbatim>\<open>tempfile.mkstemp\<close> creates a new, empty file under a name that did not exist and
  answers its descriptor (here: its inode).\<close>

definition mkstemp :: "string \<Rightarrow> filesystem \<Rightarrow> (nat \<times> filesystem) option" where
  "mkstemp p f =
     (if path_exists f p then None
      else Some (next_inode f,
                 f\<lparr>links := (links f)(p \<mapsto> next_inode f),
                   content := (content f)(next_inode f := []),
                   next_inode := Suc (next_inode f)\<rparr>))"

text \<open>\<^verbatim>\<open>os.link(src, dst)\<close> raises \<^verbatim>\<open>OSError\<close> when \<open>dst\<close> exists or \<open>src\<close> does not.\<close>

definition os_link :: "string \<Rightarrow> string \<Rightarrow> filesystem \<Rightarrow> filesystem option" where
  "os_link src dst f =
     (case links f src of
        None \<Rightarrow> None
      | Some i \<Rightarrow> if path_exists f dst then None else Some (f\<lparr>links := (links f)(dst \<mapsto> i)\<rparr>))"

definition os_write :: "nat \<Rightarrow> string \<Rightarrow> filesystem \<Rightarrow> filesystem" where
  "os_write fd buf f = f\<lparr>content := (content f)(fd := content f fd @ buf)\<rparr>"

text \<open>\<^verbatim>\<open>RegistrarWorker.is_lockfile_stale\<close>, lines 687-701, on the data read from the
  file; \<open>mypid\<close> is \<^verbatim>\<open>os.getpid()\<close>.\<close>

definition is_lockfile_stale :: "nat \<Rightarrow> string \<Rightarrow> bool" where
  "is_lockfile_stale mypid dat =
     ((case py_int (py_strip dat) of None \<Rightarrow> - 1 | Some p \<Rightarrow> p) \<noteq> int mypid)"

text \<open>\<^verbatim>\<open>RegistrarWorker.is_lockfile_valid\<close>, lines 733-750.\<close>

definition is_lockfile_valid :: "nat \<Rightarrow> string \<Rightarrow> filesystem \<Rightarrow> bool" where
  "is_lockfile_valid mypid lockfile_path f =
     (case links f lockfile_path of
        None \<Rightarrow> False
      | Some i \<Rightarrow> \<not> is_lockfile_stale mypid (content f i))"

text \<open>What the operating system does at startup: the name \<^verbatim>\<open>mkstemp\<close> picks
  (\<open>None\<close>: it raises), and whether the writes of \<^verbatim>\<open>lockfile_write\<close> (lines 704-722)
  go through.\<close>

record os_env =
  mkstemp_name :: "string option"
  write_ok :: bool

datatype startup = ExtraWorker | FailedToLock | FailedToWrite | Locked

text \<open>
  The head of \<^verbatim>\<open>RegistrarWorker.run\<close>, lines 765-802. \<open>Locked\<close> is the only answer
  with which the worker goes on to its loop.
\<close>

definition acquire_lock ::
  "os_env \<Rightarrow> nat \<Rightarrow> string \<Rightarrow> filesystem \<Rightarrow> startup \<times> filesystem" where
  "acquire_lock os mypid lockfile_path f =
     (if is_lockfile_valid mypid lockfile_path f then (ExtraWorker, f)
      else
        let f1 = (if path_exists f lockfile_path then unlink lockfile_path f else f)
        in (case mkstemp_name os of
              None \<Rightarrow> (FailedToLock, f1)
            | Some path \<Rightarrow>
                (case mkstemp path f1 of
                   None \<Rightarrow> (FailedToLock, f1)
                 | Some (fd, f2) \<Rightarrow>
                     (case os_link path lockfile_path f2 of
                        None \<Rightarrow> (FailedToLock, unlink path f2)
                      | Some f3 \<Rightarrow>
                          let f4 = unlink path f3
                          in if write_ok os then
                               (Locked, os_write fd (show_nat mypid @ [CHR 0x0A]) f4)
                             else (FailedToWrite, f4)))))"

subsection \<open>Reading back a written process id\<close>

lemma digit_not_space: "is_digit c \<Longrightarrow> \<not> is_space c \<and> c \<noteq> CHR ''-'' \<and> c \<noteq> CHR ''+''"
  by (auto simp: is_digit_def is_space_def)

lemma of_char_digit_char: "d < 10 \<Longrightarrow> (of_char (digit_char d) :: nat) = 48 + d"
  by (simp add: digit_char_def)

lemma digit_char_props:
  "d < 10 \<Longrightarrow> is_digit (digit_char d) \<and> digit_of (digit_char d) = d"
  by (simp add: is_digit_def digit_of_def of_char_digit_char)

lemma digits_value_snoc: "digits_value (s @ [c]) = 10 * digits_value s + digit_of c"
  by (simp add: digits_value_def)

lemma show_nat_digits:
  "show_nat n \<noteq> [] \<and> list_all is_digit (show_nat n) \<and> digits_value (show_nat n) = n"
proof (induction n rule: show_nat.induct)
  case (1 n)
  show ?case
  proof (cases "n < 10")
    case True
    then show ?thesis
      using digit_char_props [of n] by (simp add: show_nat.simps [of n] digits_value_def)
  next
    case False
    with "1" digit_char_props [of "n mod 10"] show ?thesis
      by (simp add: show_nat.simps [of n] digits_value_snoc)
  qed
qed

lemma py_strip_digits_newline:
  assumes "s \<noteq> []" and "list_all is_digit s"
  shows "py_strip (s @ [CHR 0x0A]) = s"
proof -
  from assms obtain c cs where s: "s = c # cs" by (cases s) auto
  with assms have "\<not> is_space c" by (simp add: digit_not_space)
  with s have 1: "dropWhile is_space (s @ [CHR 0x0A]) = s @ [CHR 0x0A]" by simp
  from assms obtain d ds where r: "rev s = d # ds" by (cases "rev s") auto
  then have "d \<in> set s" by (metis list.set_intros(1) set_rev)
  with assms have "\<not> is_space d" by (simp add: list_all_iff digit_not_space)
  with r have 2: "dropWhile is_space (CHR 0x0A # rev s) = rev s" by (simp add: is_space_def)
  from 1 2 show ?thesis by (simp add: py_strip_def)
qed

lemma py_int_digits:
  assumes "s \<noteq> []" and "list_all is_digit s"
  shows "py_int s = Some (int (digits_value s))"
proof -
  from assms obtain c cs where s: "s = c # cs" by (cases s) auto
  with assms have "c \<noteq> CHR ''-''" "c \<noteq> CHR ''+''" by (simp_all add: digit_not_space)
  with s assms show ?thesis by (simp add: py_int_def py_digits_def)
qed

lemma read_back_pid: "py_int (py_strip (show_nat n @ [CHR 0x0A])) = Some (int n)"
  using show_nat_digits [of n] by (simp add: py_strip_digits_newline py_int_digits)

lemma own_pid_not_stale: "\<not> is_lockfile_stale n (show_nat n @ [CHR 0x0A])"
  by (simp add: is_lockfile_stale_def read_back_pid)

lemma stale_iff: "is_lockfile_stale mypid dat = (py_int (py_strip dat) \<noteq> Some (int mypid))"
  by (auto simp: is_lockfile_stale_def split: option.splits)


subsection \<open>Startup\<close>

lemma acquire_lock_valid:
  "is_lockfile_valid mypid lock f \<Longrightarrow> acquire_lock os mypid lock f = (ExtraWorker, f)"
  by (simp add: acquire_lock_def)

lemma acquire_lock_stale_unlinks:
  assumes "links f lock = Some i" and "is_lockfile_stale mypid (content f i)"
  shows "fst (acquire_lock os mypid lock f) \<noteq> ExtraWorker \<and>
         (links (snd (acquire_lock os mypid lock f)) lock = None \<or>
          links (snd (acquire_lock os mypid lock f)) lock = Some (next_inode f))"
proof -
  from assms have nv: "\<not> is_lockfile_valid mypid lock f"
    by (simp add: is_lockfile_valid_def)
  from assms have ex: "path_exists f lock" by (simp add: path_exists_def)
  show ?thesis
    using nv ex
    by (auto simp: acquire_lock_def Let_def unlink_def mkstemp_def os_link_def os_write_def
        path_exists_def split: option.splits if_splits)
qed

lemma acquire_lock_stale_locks:
  assumes "links f lock = Some i" and "is_lockfile_stale mypid (content f i)"
    and "mkstemp_name os = Some tmp" and "tmp \<noteq> lock" and "\<not> path_exists f tmp"
    and "write_ok os"
  shows "fst (acquire_lock os mypid lock f) = Locked \<and>
         links (snd (acquire_lock os mypid lock f)) lock = Some (next_inode f) \<and>
         content (snd (acquire_lock os mypid lock f)) (next_inode f)
           = show_nat mypid @ [CHR 0x0A] \<and>
         links (snd (acquire_lock os mypid lock f)) tmp = None \<and>
         is_lockfile_valid mypid lock (snd (acquire_lock os mypid lock f))"
proof -
  from assms(1,2) have nv: "\<not> is_lockfile_valid mypid lock f"
    by (simp add: is_lockfile_valid_def)
  from assms(1) have ex: "path_exists f lock" by (simp add: path_exists_def)
  let ?f' = "os_write (next_inode f) (show_nat mypid @ [CHR 0x0A])
      (unlink tmp ((unlink lock f)\<lparr>links := (links (unlink lock f))(tmp \<mapsto> next_inode f),
                   content := (content (unlink lock f))(next_inode f := []),
                   next_inode := Suc (next_inode (unlink lock f))\<rparr>
                 \<lparr>links := ((links (unlink lock f))(tmp \<mapsto> next_inode f))
                     (lock \<mapsto> next_inode f)\<rparr>))"
  have run: "acquire_lock os mypid lock f = (Locked, ?f')"
    using nv ex assms(3-6)
    by (simp add: acquire_lock_def Let_def mkstemp_def os_link_def path_exists_def unlink_def)
  have l: "links ?f' lock = Some (next_inode f)" "links ?f' tmp = None"
    using assms(4) by (simp_all add: os_write_def unlink_def)
  have c: "content ?f' (next_inode f) = show_nat mypid @ [CHR 0x0A]"
    by (simp add: os_write_def unlink_def)
  from l c have "is_lockfile_valid mypid lock ?f'"
    by (simp add: is_lockfile_valid_def own_pid_not_stale)
  with run l c show ?thesis by simp
qed

text \<open>
  C4. A lockfile is stale exactly when the process id parsed from its stripped contents
  is not the id of the current process; contents that do not parse give \<open>-1\<close>, which
  is no process id, so they count as stale. At startup, a lockfile that exists and is
  stale is unlinked, and the worker does not leave as an extra worker; when
  \<^verbatim>\<open>mkstemp\<close> gives a new temporary file and the write goes through, the temporary
  file is hard-linked to the lock path and unlinked, the id of the process and a
  newline are written through its descriptor, and the lock then is valid for this
  process. A lockfile that exists and holds the id of the current process makes the
  worker leave as an extra worker, with the file system untouched.
\<close>

theorem lockfile_startup:
  "(is_lockfile_stale mypid dat = (py_int (py_strip dat) \<noteq> Some (int mypid)))
   \<and> (links f lock = Some i \<and> is_lockfile_stale mypid (content f i) \<longrightarrow>
        fst (acquire_lock os mypid lock f) \<noteq> ExtraWorker \<and>
        (links (snd (acquire_lock os mypid lock f)) lock = None \<or>
         links (snd (acquire_lock os mypid lock f)) lock = Some (next_inode f)))
   \<and> (links f lock = Some i \<and> is_lockfile_stale mypid (content f i) \<and>
      mkstemp_name os = Some tmp \<and> tmp \<noteq> lock \<and> \<not> path_exists f tmp \<and> write_ok os \<longrightarrow>
        fst (acquire_lock os mypid lock f) = Locked \<and>
        links (snd (acquire_lock os mypid lock f)) lock = Some (next_inode f) \<and>
        content (snd (acquire_lock os mypid lock f)) (next_inode f)
          = show_nat mypid @ [CHR 0x0A] \<and>
        links (snd (acquire_lock os mypid lock f)) tmp = None \<and>
        is_lockfile_valid mypid lock (snd (acquire_lock os mypid lock f)))
   \<and> (links f lock = Some i \<and> py_int (py_strip (content f i)) = Some (int mypid) \<longrightarrow>
        acquire_lock os mypid lock f = (ExtraWorker, f))"
proof (intro conjI impI)
  show "is_lockfile_stale mypid dat = (py_int (py_strip dat) \<noteq> Some (int mypid))"
    by (rule stale_iff)
next
  assume a: "links f lock = Some i \<and> is_lockfile_stale mypid (content f i)"
  then show "fst (acquire_lock os mypid lock f) \<noteq> ExtraWorker"
    using acquire_lock_stale_unlinks [of f lock i mypid os] by simp
  from a show "links (snd (acquire_lock os mypid lock f)) lock = None \<or>
         links (snd (acquire_lock os mypid lock f)) lock = Some (next_inode f)"
    using acquire_lock_stale_unlinks [of f lock i mypid os] by simp
next
  assume a: "links f lock = Some i \<and> is_lockfile_stale mypid (content f i) \<and>
      mkstemp_name os = Some tmp \<and> tmp \<noteq> lock \<and> \<not> path_exists f tmp \<and> write_ok os"
  then have l: "fst (acquire_lock os mypid lock f) = Locked \<and>
         links (snd (acquire_lock os mypid lock f)) lock = Some (next_inode f) \<and>
         content (snd (acquire_lock os mypid lock f)) (next_inode f)
           = show_nat mypid @ [CHR 0x0A] \<and>
         links (snd (acquire_lock os mypid lock f)) tmp = None \<and>
         is_lockfile_valid mypid lock (snd (acquire_lock os mypid lock f))"
    using acquire_lock_stale_locks [of f lock i mypid os tmp] by simp
  from l show "fst (acquire_lock os mypid lock f) = Locked" by simp
  from l show "links (snd (acquire_lock os mypid lock f)) lock = Some (next_inode f)" by simp
  from l show "content (snd (acquire_lock os mypid lock f)) (next_inode f)
          = show_nat mypid @ [CHR 0x0A]" by simp
  from l show "links (snd (acquire_lock os mypid lock f)) tmp = None" by simp
  from l show "is_lockfile_valid mypid lock (snd (acquire_lock os mypid lock f))" by simp
next
  assume "links f lock = Some i \<and> py_int (py_strip (content f i)) = Some (int mypid)"
  then have "is_lockfile_valid mypid lock f"
    by (simp add: is_lockfile_valid_def stale_iff)
  then show "acquire_lock os mypid lock f = (ExtraWorker, f)" by (rule acquire_lock_valid)
qed

text \<open>A lockfile left behind by process 4242, found by process 77.\<close>

definition old_lock_data :: string where
  "old_lock_data = ''4242'' @ [CHR 0x0A]"

definition fs0 :: filesystem where
  "fs0 = \<lparr>links = [''/cfg/registrar.lock'' \<mapsto> 0],
          content = (\<lambda>i. if i = 0 then old_lock_data else []),
          next_inode = 1\<rparr>"

definition os0 :: os_env where
  "os0 = \<lparr>mkstemp_name = Some ''/cfg/.registrar.lock.k3x9'', write_ok = True\<rparr>"

lemma py_int_old_lock_data: "py_int (py_strip old_lock_data) = Some 4242"
  by (simp add: old_lock_data_def py_strip_def is_space_def py_int_def py_digits_def
      is_digit_def digits_value_def digit_of_def)

lemma show_nat_77: "show_nat 77 = ''77''"
  by (simp add: show_nat.simps digit_char_def char_of_eq_iff)

theorem lockfile_startup_witness:
  "is_lockfile_stale 77 old_lock_data \<and>
   fst (acquire_lock os0 77 ''/cfg/registrar.lock'' fs0) = Locked \<and>
   links (snd (acquire_lock os0 77 ''/cfg/registrar.lock'' fs0)) ''/cfg/registrar.lock'' = Some 1 \<and>
   content (snd (acquire_lock os0 77 ''/cfg/registrar.lock'' fs0)) 1 = ''77'' @ [CHR 0x0A] \<and>
   acquire_lock os0 4242 ''/cfg/registrar.lock'' fs0 = (ExtraWorker, fs0)"
proof -
  have st: "is_lockfile_stale 77 old_lock_data"
    by (simp add: is_lockfile_stale_def py_int_old_lock_data)
  have h: "links fs0 ''/cfg/registrar.lock'' = Some 0"
    "content fs0 0 = old_lock_data"
    "mkstemp_name os0 = Some ''/cfg/.registrar.lock.k3x9''"
    "''/cfg/.registrar.lock.k3x9'' \<noteq> ''/cfg/registrar.lock''"
    "\<not> path_exists fs0 ''/cfg/.registrar.lock.k3x9''" "write_ok os0" "next_inode fs0 = 1"
    by (simp_all add: fs0_def os0_def path_exists_def)
  from lockfile_startup [of 77 old_lock_data fs0 "''/cfg/registrar.lock''" 0 os0
      "''/cfg/.registrar.lock.k3x9''"]
    lockfile_startup [of 4242 old_lock_data fs0 "''/cfg/registrar.lock''" 0 os0
      "''/cfg/.registrar.lock.k3x9''"]
    st h py_int_old_lock_data show ?thesis
    by (simp add: show_nat_77)
qed




section \<open>The worker loop\<close>

subsection \<open>The sleep between two cycles\<close>

text \<open>The six steps of a cycle, in the order of lines 829-930 of \<^verbatim>\<open>run\<close>.\<close>

datatype step =
  RegisterPreorders | SetZonefiles | ReplicateUpdates | TransferNames | ReplicateNameImports
  | ClearConfirmed

text \<open>A step answers without \<^verbatim>\<open>'error'\<close>, answers \<^verbatim>\<open>{'error': ...}\<close>, or raises.\<close>

datatype outcome = StepOk | StepError | StepRaised

text \<open>
  The pair is (\<^verbatim>\<open>failed\<close>, \<^verbatim>\<open>poll_interval\<close>). Both the branch
  \<^verbatim>\<open>if 'error' in res\<close> and the \<^verbatim>\<open>except\<close> clause of each step set
  \<^verbatim>\<open>failed = True\<close> and \<^verbatim>\<open>poll_interval = 1.0\<close>. Python's floats are taken as
  real numbers.
\<close>

definition after_step :: "outcome \<Rightarrow> bool \<times> real \<Rightarrow> bool \<times> real" where
  "after_step out s = (case out of StepOk \<Rightarrow> s | StepError \<Rightarrow> (True, 1) | StepRaised \<Rightarrow> (True, 1))"

text \<open>Lines 933-938; \<open>configured\<close> is \<^verbatim>\<open>self.poll_interval\<close> and \<open>r\<close> the value of
  \<^verbatim>\<open>random.random()\<close>.\<close>

definition backoff :: "real \<Rightarrow> real \<Rightarrow> bool \<times> real \<Rightarrow> real" where
  "backoff configured r s = (if fst s then 2 * snd s + r * snd s else configured)"

text \<open>The interval after a cycle whose steps had the outcomes \<open>outs\<close>, entered with
  the interval \<open>prev\<close>; \<^verbatim>\<open>failed\<close> is reset at the head of the cycle (line 806).\<close>

definition cycle_poll_interval :: "real \<Rightarrow> real \<Rightarrow> outcome list \<Rightarrow> real \<Rightarrow> real" where
  "cycle_poll_interval configured r outs prev =
     backoff configured r (foldl (\<lambda>s out. after_step out s) (False, prev) outs)"

text \<open>The number of one-second sleeps, \<^verbatim>\<open>xrange(0, int(poll_interval))\<close>.\<close>

definition sleep_seconds :: "real \<Rightarrow> nat" where
  "sleep_seconds p = nat \<lfloor>p\<rfloor>"

lemma after_step_simps:
  "after_step StepOk s = s" "after_step StepError s = (True, 1)"
  "after_step StepRaised s = (True, 1)"
  by (simp_all add: after_step_def)

lemma foldl_after_step_failed:
  "foldl (\<lambda>s out. after_step out s) (True, 1) outs = (True, 1)"
proof (induction outs)
  case Nil
  show ?case by simp
next
  case (Cons out outs)
  then show ?case by (cases out) (simp_all add: after_step_simps)
qed

lemma foldl_after_step_ok:
  "list_all (\<lambda>out. out = StepOk) outs \<Longrightarrow> foldl (\<lambda>s out. after_step out s) s outs = s"
  by (induction outs arbitrary: s) (simp_all add: after_step_simps)

lemma foldl_after_step_some_failure:
  "\<not> list_all (\<lambda>out. out = StepOk) outs \<Longrightarrow>
   foldl (\<lambda>s out. after_step out s) s outs = (True, 1)"
proof (induction outs arbitrary: s)
  case Nil
  then show ?case by simp
next
  case (Cons out outs)
  then show ?case
    by (cases out) (simp_all add: after_step_simps foldl_after_step_failed)
qed

lemma cycle_poll_interval_failure:
  "\<not> list_all (\<lambda>out. out = StepOk) outs \<Longrightarrow> cycle_poll_interval configured r outs prev = 2 + r"
  by (simp add: cycle_poll_interval_def foldl_after_step_some_failure backoff_def)

lemma cycle_poll_interval_success:
  "list_all (\<lambda>out. out = StepOk) outs \<Longrightarrow> cycle_poll_interval configured r outs prev = configured"
  by (simp add: cycle_poll_interval_def foldl_after_step_ok backoff_def)

text \<open>
  C1. The code at a configured interval of 10 seconds with \<^verbatim>\<open>random.random()\<close>
  answering 0.5, in three cycles whose first step fails: the interval after each of them
  is 2.5, that is two one-second sleeps, where \<open>2 * prev + rand() * prev\<close> gives 25
  after the first failure and more after the next ones. A cycle without a failure then
  resets the interval to 10.
\<close>

theorem backoff_three_failures:
  "cycle_poll_interval 10 (1/2) [StepError, StepOk, StepOk, StepOk, StepOk, StepOk] 10 = 5/2 \<and>
   cycle_poll_interval 10 (1/2) [StepError, StepOk, StepOk, StepOk, StepOk, StepOk] (5/2) = 5/2 \<and>
   cycle_poll_interval 10 (1/2) [StepRaised, StepOk, StepOk, StepOk, StepOk, StepOk] (5/2) = 5/2 \<and>
   sleep_seconds (5/2) = 2 \<and>
   2 * 10 + (1/2) * 10 = (25::real) \<and>
   cycle_poll_interval 10 (1/2) [StepOk, StepOk, StepOk, StepOk, StepOk, StepOk] (5/2) = 10"
  by (simp add: cycle_poll_interval_def after_step_simps backoff_def sleep_seconds_def)


subsection \<open>The loop as a machine\<close>

text \<open>
  The control flow of lines 804-955 of \<^verbatim>\<open>run\<close>, one event per transition. A control
  point is named after what the worker does next:
  \<^item> \<open>Top\<close>: the test of \<^verbatim>\<open>while self.running\<close> (line 804);
  \<^item> \<open>FirstGetWallet\<close>: \<^verbatim>\<open>get_wallet\<close> of line 812;
  \<^item> \<open>GateRead\<close>: the wallet is not set, \<^verbatim>\<open>self.running\<close> is read in the condition of
    the inner \<^verbatim>\<open>while\<close> (line 815);
  \<^item> \<open>GateGetWallet\<close>, \<open>GateSleep\<close>: lines 817 and 818;
  \<^item> \<open>Preempt\<close>: the preemption point of line 821;
  \<^item> \<open>AtStep s\<close>: the \<^verbatim>\<open>try\<close> block of step \<open>s\<close>; after the last one the new
    interval is computed (lines 933-938);
  \<^item> \<open>SleepTick k\<close>: \<^verbatim>\<open>time.sleep(1)\<close> of line 943 with \<open>k\<close> iterations left;
  \<^item> \<open>SleepRead k\<close>: the preemption point of line 946;
  \<^item> \<open>Exited\<close>: the loop is left (lines 954-955).
\<close>

datatype pc =
  Top | FirstGetWallet | GateRead | GateGetWallet | GateSleep | Preempt | AtStep step
  | SleepTick nat | SleepRead nat | Exited

text \<open>What \<^verbatim>\<open>get_wallet\<close> gives: a wallet with an owner address and no error, one
  without, or an exception (the \<^verbatim>\<open>except\<close> clause of line 824 leaves the loop).\<close>

datatype wallet_answer = WalletSet | WalletUnset | WalletRaised

record worker =
  pc :: pc
  step_failed :: bool
  poll_interval :: real
  wallet_set :: bool

text \<open>
  The world around the worker, by logical time: the \<open>t\<close>-th event of the run happens at
  time \<open>t\<close>. \<open>running_at t\<close> is the value a read of \<^verbatim>\<open>self.running\<close> finds at time
  \<open>t\<close>; another thread clears it with \<^verbatim>\<open>request_stop\<close>.
\<close>

record worker_env =
  running_at :: "nat \<Rightarrow> bool"
  wallet_at :: "nat \<Rightarrow> wallet_answer"
  outcome_at :: "nat \<Rightarrow> outcome"
  random_at :: "nat \<Rightarrow> real"
  configured :: real

datatype wevent = ReadRunning bool | GetWallet wallet_answer | Sleep1 | RunStep step outcome

fun next_step :: "step \<Rightarrow> step option" where
  "next_step RegisterPreorders = Some SetZonefiles"
| "next_step SetZonefiles = Some ReplicateUpdates"
| "next_step ReplicateUpdates = Some TransferNames"
| "next_step TransferNames = Some ReplicateNameImports"
| "next_step ReplicateNameImports = Some ClearConfirmed"
| "next_step ClearConfirmed = None"

definition run_step :: "worker_env \<Rightarrow> nat \<Rightarrow> step \<Rightarrow> worker \<Rightarrow> wevent \<times> worker" where
  "run_step w t st s =
     (let out = outcome_at w t;
          fp = after_step out (step_failed s, poll_interval s)
      in (RunStep st out,
          (case next_step st of
             Some st' \<Rightarrow> s\<lparr>pc := AtStep st', step_failed := fst fp, poll_interval := snd fp\<rparr>
           | None \<Rightarrow>
               let p = backoff (configured w) (random_at w t) fp
               in s\<lparr>pc := (if sleep_seconds p = 0 then Top else SleepTick (sleep_seconds p)),
                    step_failed := fst fp, poll_interval := p\<rparr>)))"

definition wstep :: "worker_env \<Rightarrow> nat \<Rightarrow> worker \<Rightarrow> (wevent \<times> worker) option" where
  "wstep w t s =
     (case pc s of
        Top \<Rightarrow>
          Some (ReadRunning (running_at w t),
                if running_at w t then s\<lparr>pc := FirstGetWallet, step_failed := False\<rparr>
                else s\<lparr>pc := Exited\<rparr>)
      | FirstGetWallet \<Rightarrow>
          Some (GetWallet (wallet_at w t),
                (case wallet_at w t of
                   WalletSet \<Rightarrow> s\<lparr>pc := Preempt, wallet_set := True\<rparr>
                 | WalletUnset \<Rightarrow> s\<lparr>pc := GateRead, wallet_set := False\<rparr>
                 | WalletRaised \<Rightarrow> s\<lparr>pc := Exited\<rparr>))
      | GateRead \<Rightarrow>
          Some (ReadRunning (running_at w t),
                s\<lparr>pc := (if running_at w t then GateGetWallet else Preempt)\<rparr>)
      | GateGetWallet \<Rightarrow>
          Some (GetWallet (wallet_at w t),
                (case wallet_at w t of
                   WalletSet \<Rightarrow> s\<lparr>pc := GateSleep, wallet_set := True\<rparr>
                 | WalletUnset \<Rightarrow> s\<lparr>pc := GateSleep, wallet_set := False\<rparr>
                 | WalletRaised \<Rightarrow> s\<lparr>pc := Exited\<rparr>))
      | GateSleep \<Rightarrow> Some (Sleep1, s\<lparr>pc := (if wallet_set s then Preempt else GateRead)\<rparr>)
      | Preempt \<Rightarrow>
          Some (ReadRunning (running_at w t),
                s\<lparr>pc := (if running_at w t then AtStep RegisterPreorders else Exited)\<rparr>)
      | AtStep st \<Rightarrow> Some (run_step w t st s)
      | SleepTick k \<Rightarrow> Some (Sleep1, s\<lparr>pc := SleepRead k\<rparr>)
      | SleepRead k \<Rightarrow>
          Some (ReadRunning (running_at w t),
                s\<lparr>pc := (if \<not> running_at w t then Top
                          else if k \<le> 1 then Top else SleepTick (k - 1))\<rparr>)
      | Exited \<Rightarrow> None)"

text \<open>The first \<open>n\<close> events of the worker started in state \<open>s\<close> at time \<open>t\<close>; fewer
  when it has left the loop before.\<close>

fun wrun :: "worker_env \<Rightarrow> nat \<Rightarrow> nat \<Rightarrow> worker \<Rightarrow> wevent list" where
  "wrun w 0 t s = []"
| "wrun w (Suc n) t s =
     (case wstep w t s of
        None \<Rightarrow> []
      | Some (ev, s') \<Rightarrow> ev # wrun w n (Suc t) s')"

definition worker_start :: "worker_env \<Rightarrow> worker" where
  "worker_start w = \<lparr>pc = Top, step_failed = False, poll_interval = configured w,
     wallet_set = False\<rparr>"

fun is_run_step :: "wevent \<Rightarrow> bool" where
  "is_run_step (RunStep st out) = True"
| "is_run_step _ = False"

fun is_first_step :: "wevent \<Rightarrow> bool" where
  "is_first_step (RunStep st out) = (st = RegisterPreorders)"
| "is_first_step _ = False"

fun is_sleep :: "wevent \<Rightarrow> bool" where
  "is_sleep Sleep1 = True"
| "is_sleep _ = False"

text \<open>The flag is cleared at time 4, while the first step of a cycle runs.\<close>

definition stop_env :: worker_env where
  "stop_env = \<lparr>running_at = (\<lambda>t. t < 4), wallet_at = (\<lambda>t. WalletSet),
     outcome_at = (\<lambda>t. StepOk), random_at = (\<lambda>t. 0), configured = 2\<rparr>"

lemma stop_env_run:
  "wrun stop_env 20 0 (worker_start stop_env)
     = [ReadRunning True, GetWallet WalletSet, ReadRunning True,
        RunStep RegisterPreorders StepOk, RunStep SetZonefiles StepOk,
        RunStep ReplicateUpdates StepOk, RunStep TransferNames StepOk,
        RunStep ReplicateNameImports StepOk, RunStep ClearConfirmed StepOk,
        Sleep1, ReadRunning False, ReadRunning False]"
  by (simp add: eval_nat_numeral wstep_def run_step_def worker_start_def stop_env_def
      after_step_simps backoff_def sleep_seconds_def)

text \<open>
  The flag is not read between the steps of a cycle: with the flag cleared at time 4,
  the steps from \<open>SetZonefiles\<close> to \<open>ClearConfirmed\<close> begin at the times 4 to 8, each
  after the flag was cleared.
\<close>

theorem steps_begin_after_stop:
  "\<not> running_at stop_env 4 \<and>
   drop 4 (wrun stop_env 20 0 (worker_start stop_env))
     = [RunStep SetZonefiles StepOk, RunStep ReplicateUpdates StepOk,
        RunStep TransferNames StepOk, RunStep ReplicateNameImports StepOk,
        RunStep ClearConfirmed StepOk, Sleep1, ReadRunning False, ReadRunning False]"
  by (simp add: stop_env_run) (simp add: stop_env_def)

subsection \<open>After the flag is cleared\<close>

fun steps_left :: "step \<Rightarrow> nat" where
  "steps_left RegisterPreorders = 5"
| "steps_left SetZonefiles = 4"
| "steps_left ReplicateUpdates = 3"
| "steps_left TransferNames = 2"
| "steps_left ReplicateNameImports = 1"
| "steps_left ClearConfirmed = 0"

text \<open>A bound on the events still to come from a control point once the flag stays
  cleared, on the steps among them, and on the sleeps among them.\<close>

fun events_left :: "pc \<Rightarrow> nat" where
  "events_left Exited = 0"
| "events_left Top = 1"
| "events_left Preempt = 1"
| "events_left GateRead = 2"
| "events_left (SleepRead k) = 2"
| "events_left GateSleep = 3"
| "events_left (SleepTick k) = 3"
| "events_left FirstGetWallet = 3"
| "events_left GateGetWallet = 4"
| "events_left (AtStep st) = 4 + steps_left st"

fun run_steps_left :: "pc \<Rightarrow> nat" where
  "run_steps_left (AtStep st) = Suc (steps_left st)"
| "run_steps_left _ = 0"

fun sleeps_left :: "pc \<Rightarrow> nat" where
  "sleeps_left GateSleep = 1"
| "sleeps_left GateGetWallet = 1"
| "sleeps_left (SleepTick k) = 1"
| "sleeps_left (AtStep st) = 1"
| "sleeps_left _ = 0"

lemma next_step_left: "next_step st = Some st' \<Longrightarrow> steps_left st = Suc (steps_left st')"
  by (cases st) auto

lemma run_step_cases:
  assumes "run_step w t st s = (ev, s')"
  shows "is_run_step ev \<and> \<not> is_sleep ev \<and> is_first_step ev = (st = RegisterPreorders) \<and>
         ((\<exists>st'. next_step st = Some st' \<and> pc s' = AtStep st') \<or>
          (next_step st = None \<and> (pc s' = Top \<or> (\<exists>k. pc s' = SleepTick k))))"
proof -
  let ?p = "backoff (configured w) (random_at w t)
      (after_step (outcome_at w t) (step_failed s, poll_interval s))"
  from assms have ev: "ev = RunStep st (outcome_at w t)"
    by (simp add: run_step_def Let_def)
  show ?thesis
  proof (cases "next_step st")
    case None
    with assms have "pc s' = (if sleep_seconds ?p = 0 then Top else SleepTick (sleep_seconds ?p))"
      by (auto simp: run_step_def Let_def)
    then have "pc s' = Top \<or> (\<exists>k. pc s' = SleepTick k)"
      by (cases "sleep_seconds ?p = 0") simp_all
    with None ev show ?thesis by simp
  next
    case (Some st')
    with assms have "pc s' = AtStep st'" by (auto simp: run_step_def Let_def)
    with Some ev show ?thesis by simp
  qed
qed

lemma wstep_stopped:
  assumes "wstep w t s = Some (ev, s')" and "\<not> running_at w t"
  shows "events_left (pc s') < events_left (pc s)"
    and "run_steps_left (pc s') + (if is_run_step ev then 1 else 0) \<le> run_steps_left (pc s)"
    and "sleeps_left (pc s') + (if is_sleep ev then 1 else 0) \<le> sleeps_left (pc s)"
    and "pc s' \<noteq> AtStep RegisterPreorders"
    and "is_first_step ev \<longrightarrow> pc s = AtStep RegisterPreorders"
proof -
  show "events_left (pc s') < events_left (pc s)"
  proof (cases "pc s")
    case (AtStep st)
    with assms have "run_step w t st s = (ev, s')" by (simp add: wstep_def)
    from run_step_cases [OF this] AtStep show ?thesis
      by (cases st) auto
  qed (use assms in \<open>auto simp: wstep_def split: wallet_answer.splits if_splits\<close>)
  show "run_steps_left (pc s') + (if is_run_step ev then 1 else 0) \<le> run_steps_left (pc s)"
  proof (cases "pc s")
    case (AtStep st)
    with assms have "run_step w t st s = (ev, s')" by (simp add: wstep_def)
    from run_step_cases [OF this] AtStep show ?thesis
      by (cases st) auto
  qed (use assms in \<open>auto simp: wstep_def split: wallet_answer.splits if_splits\<close>)
  show "sleeps_left (pc s') + (if is_sleep ev then 1 else 0) \<le> sleeps_left (pc s)"
  proof (cases "pc s")
    case (AtStep st)
    with assms have "run_step w t st s = (ev, s')" by (simp add: wstep_def)
    from run_step_cases [OF this] AtStep show ?thesis
      by (cases st) auto
  qed (use assms in \<open>auto simp: wstep_def split: wallet_answer.splits if_splits\<close>)
  show "pc s' \<noteq> AtStep RegisterPreorders"
  proof (cases "pc s")
    case (AtStep st)
    with assms have "run_step w t st s = (ev, s')" by (simp add: wstep_def)
    from run_step_cases [OF this] AtStep show ?thesis
      by (cases st) auto
  qed (use assms in \<open>auto simp: wstep_def split: wallet_answer.splits if_splits\<close>)
  show "is_first_step ev \<longrightarrow> pc s = AtStep RegisterPreorders"
  proof (cases "pc s")
    case (AtStep st)
    with assms have "run_step w t st s = (ev, s')" by (simp add: wstep_def)
    from run_step_cases [OF this] AtStep show ?thesis by simp
  qed (use assms in \<open>auto simp: wstep_def split: wallet_answer.splits if_splits\<close>)
qed

lemma wrun_stopped:
  assumes "\<forall>t' \<ge> t. \<not> running_at w t'"
  shows "length (wrun w n t s) \<le> events_left (pc s) \<and>
         length (filter is_run_step (wrun w n t s)) \<le> run_steps_left (pc s) \<and>
         length (filter is_sleep (wrun w n t s)) \<le> sleeps_left (pc s) \<and>
         (\<forall>e \<in> set (tl (wrun w n t s)). \<not> is_first_step e) \<and>
         (pc s \<noteq> AtStep RegisterPreorders \<longrightarrow> (\<forall>e \<in> set (wrun w n t s). \<not> is_first_step e))"
  using assms
proof (induction n arbitrary: t s)
  case 0
  show ?case by simp
next
  case (Suc n)
  show ?case
  proof (cases "wstep w t s")
    case None
    then show ?thesis by simp
  next
    case (Some a)
    obtain ev s' where a: "a = (ev, s')" by (cases a) auto
    with Some have st: "wstep w t s = Some (ev, s')" by simp
    from Suc.prems have nr: "\<not> running_at w t" and later: "\<forall>t' \<ge> Suc t. \<not> running_at w t'"
      by auto
    note ws = wstep_stopped [OF st nr]
    note ih = Suc.IH [OF later, of s']
    have run: "wrun w (Suc n) t s = ev # wrun w n (Suc t) s'" using st by simp
    have 1: "length (wrun w (Suc n) t s) \<le> events_left (pc s)"
      using run ih ws(1) by simp
    have 2: "length (filter is_run_step (wrun w (Suc n) t s)) \<le> run_steps_left (pc s)"
      using run ih ws(2) by (auto split: if_splits)
    have 3: "length (filter is_sleep (wrun w (Suc n) t s)) \<le> sleeps_left (pc s)"
      using run ih ws(3) by (auto split: if_splits)
    have 4: "\<forall>e \<in> set (tl (wrun w (Suc n) t s)). \<not> is_first_step e"
      using run ih ws(4) by simp
    have 5: "pc s \<noteq> AtStep RegisterPreorders \<longrightarrow>
        (\<forall>e \<in> set (wrun w (Suc n) t s). \<not> is_first_step e)"
      using run ih ws(4,5) by auto
    from 1 2 3 4 5 show ?thesis by blast
  qed
qed

lemma drop_wrun:
  "drop k (wrun w n t s) = [] \<or> (\<exists>n' s'. drop k (wrun w n t s) = wrun w n' (t + k) s')"
proof (induction k arbitrary: n t s)
  case 0
  show ?case by auto
next
  case (Suc k)
  show ?case
  proof (cases n)
    case 0
    then show ?thesis by simp
  next
    case (Suc m)
    show ?thesis
    proof (cases "wstep w t s")
      case None
      with Suc show ?thesis by simp
    next
      case (Some a)
      obtain ev s1 where "a = (ev, s1)" by (cases a) auto
      with Some Suc have "drop (Suc k) (wrun w n t s) = drop k (wrun w m (Suc t) s1)" by simp
      with Suc.IH [where n = m and t = "Suc t" and s = s1] show ?thesis by simp
    qed
  qed
qed

lemma events_left_le: "events_left p \<le> 9"
proof (cases p)
  case (AtStep st)
  then show ?thesis by (cases st) auto
qed auto

lemma run_steps_left_le: "run_steps_left p \<le> 6"
proof (cases p)
  case (AtStep st)
  then show ?thesis by (cases st) auto
qed auto

lemma sleeps_left_le: "sleeps_left p \<le> 1"
  by (cases p) auto

lemma next_step_not_first: "next_step st \<noteq> Some RegisterPreorders"
  by (cases st) auto

lemma wstep_first_step_event:
  assumes "wstep w t s = Some (ev, s')" and "is_first_step ev"
  shows "pc s = AtStep RegisterPreorders"
proof (cases "pc s")
  case (AtStep st)
  with assms have "run_step w t st s = (ev, s')" by (simp add: wstep_def)
  from run_step_cases [OF this] assms(2) AtStep show ?thesis by simp
qed (use assms in \<open>auto simp: wstep_def split: wallet_answer.splits if_splits\<close>)

lemma wstep_to_first_step:
  assumes "wstep w t s = Some (ev, s')" and "pc s' = AtStep RegisterPreorders"
  shows "ev = ReadRunning True \<and> running_at w t"
proof (cases "pc s")
  case (AtStep st)
  with assms have "run_step w t st s = (ev, s')" by (simp add: wstep_def)
  from run_step_cases [OF this] assms(2) next_step_not_first [of st] show ?thesis by auto
qed (use assms in \<open>auto simp: wstep_def split: wallet_answer.splits if_splits\<close>)

lemma wrun_first_step_after_read:
  "Suc i < length (wrun w n t s) \<Longrightarrow> is_first_step (wrun w n t s ! Suc i) \<Longrightarrow>
   wrun w n t s ! i = ReadRunning True \<and> running_at w (t + i)"
proof (induction n arbitrary: t s i)
  case 0
  then show ?case by simp
next
  case (Suc n)
  from Suc.prems(1) obtain ev s' where st: "wstep w t s = Some (ev, s')"
    by (cases "wstep w t s") auto
  then have run: "wrun w (Suc n) t s = ev # wrun w n (Suc t) s'" by simp
  show ?case
  proof (cases i)
    case 0
    with Suc.prems run have ne: "0 < length (wrun w n (Suc t) s')"
      and f: "is_first_step (wrun w n (Suc t) s' ! 0)" by simp_all
    from ne obtain m where n: "n = Suc m" by (cases n) auto
    with ne obtain ev' s'' where st': "wstep w (Suc t) s' = Some (ev', s'')"
      by (cases "wstep w (Suc t) s'") auto
    with n f have "is_first_step ev'" by simp
    from wstep_first_step_event [OF st' this] have "pc s' = AtStep RegisterPreorders" .
    from wstep_to_first_step [OF st this] run 0 show ?thesis by simp
  next
    case (Suc j)
    with Suc.prems run have "Suc j < length (wrun w n (Suc t) s')"
      and "is_first_step (wrun w n (Suc t) s' ! Suc j)" by simp_all
    from Suc.IH [OF this] run Suc show ?thesis by simp
  qed
qed

text \<open>The flag is cleared at time 3, between the read of line 821 (at time 2) and the
  first step.\<close>

definition stop_env3 :: worker_env where
  "stop_env3 = \<lparr>running_at = (\<lambda>t. t < 3), wallet_at = (\<lambda>t. WalletSet),
     outcome_at = (\<lambda>t. StepOk), random_at = (\<lambda>t. 0), configured = 2\<rparr>"

lemma stop_env3_run:
  "wrun stop_env3 20 0 (worker_start stop_env3)
     = [ReadRunning True, GetWallet WalletSet, ReadRunning True,
        RunStep RegisterPreorders StepOk, RunStep SetZonefiles StepOk,
        RunStep ReplicateUpdates StepOk, RunStep TransferNames StepOk,
        RunStep ReplicateNameImports StepOk, RunStep ClearConfirmed StepOk,
        Sleep1, ReadRunning False, ReadRunning False]"
  by (simp add: eval_nat_numeral wstep_def run_step_def worker_start_def stop_env3_def
      after_step_simps backoff_def sleep_seconds_def)

text \<open>
  C5, as the code has it. The worker reads the flag at the head of a cycle (line 804),
  in each round of the wait for the wallet (line 815), at the preemption point after it
  (line 821) and after each second of the sleep between two cycles (line 946); it reads
  it neither between the steps of a cycle nor between line 821 and the first step. In
  every run, a first step that is not the very first event comes directly after a read
  of the flag that found it set. Let the flag read as cleared from time \<open>T\<close> on. Then,
  from any state: the worker leaves its loop within nine events from time \<open>T\<close>; the
  event at time \<open>T\<close> itself can still be the first step of a cycle (the read before it
  was at time \<open>T - 1\<close>), but no later event is; at most six steps are among the events
  from time \<open>T\<close> on, a whole cycle when the flag is cleared right after the read of
  line 821; and at most one one-second sleep.
\<close>

theorem worker_stops:
  assumes "\<forall>t \<ge> T. \<not> running_at w t"
  shows "length (wrun w n 0 s) \<le> T + 9 \<and>
         (\<forall>e \<in> set (drop (Suc T) (wrun w n 0 s)). \<not> is_first_step e) \<and>
         length (filter is_run_step (drop T (wrun w n 0 s))) \<le> 6 \<and>
         length (filter is_sleep (drop T (wrun w n 0 s))) \<le> 1 \<and>
         (\<forall>i. Suc i < length (wrun w n 0 s) \<longrightarrow> is_first_step (wrun w n 0 s ! Suc i) \<longrightarrow>
              wrun w n 0 s ! i = ReadRunning True \<and> running_at w i)"
proof -
  have 5: "\<forall>i. Suc i < length (wrun w n 0 s) \<longrightarrow> is_first_step (wrun w n 0 s ! Suc i) \<longrightarrow>
              wrun w n 0 s ! i = ReadRunning True \<and> running_at w i"
    using wrun_first_step_after_read [of _ w n 0 s] by simp
  show ?thesis
  proof (cases "drop T (wrun w n 0 s) = []")
    case True
    then have "length (wrun w n 0 s) \<le> T" by simp
    moreover from True have "drop (Suc T) (wrun w n 0 s) = []" by simp
    ultimately show ?thesis using True 5 by simp
  next
    case False
    with drop_wrun [where k = T and w = w and n = n and t = 0 and s = s] obtain n' s' where
      d: "drop T (wrun w n 0 s) = wrun w n' T s'" by auto
    from assms have "\<forall>t' \<ge> T. \<not> running_at w t'" by simp
    note st = wrun_stopped [OF this, of n' s']
    have "length (wrun w n 0 s) \<le> T + length (drop T (wrun w n 0 s))" by simp
    with d st events_left_le [of "pc s'"] have 1: "length (wrun w n 0 s) \<le> T + 9" by simp
    have "drop (Suc T) (wrun w n 0 s) = tl (drop T (wrun w n 0 s))"
      by (simp add: drop_Suc tl_drop)
    with d st have 2: "\<forall>e \<in> set (drop (Suc T) (wrun w n 0 s)). \<not> is_first_step e" by simp
    from d st run_steps_left_le [of "pc s'"]
    have 3: "length (filter is_run_step (drop T (wrun w n 0 s))) \<le> 6" by simp
    from d st sleeps_left_le [of "pc s'"]
    have 4: "length (filter is_sleep (drop T (wrun w n 0 s))) \<le> 1" by simp
    from 1 2 3 4 5 show ?thesis by simp
  qed
qed

text \<open>Two runs: the flag cleared at time 4, during the first step, and at time 3, right
  after the read of line 821; in the second the first step and the five others all
  begin after the flag was cleared.\<close>

theorem worker_stops_witness:
  "length (wrun stop_env 20 0 (worker_start stop_env)) = 12 \<and>
   length (filter is_run_step (drop 4 (wrun stop_env 20 0 (worker_start stop_env)))) = 5 \<and>
   length (filter is_sleep (drop 4 (wrun stop_env 20 0 (worker_start stop_env)))) = 1 \<and>
   \<not> running_at stop_env3 3 \<and>
   wrun stop_env3 20 0 (worker_start stop_env3) ! 3 = RunStep RegisterPreorders StepOk \<and>
   wrun stop_env3 20 0 (worker_start stop_env3) ! 2 = ReadRunning True \<and>
   length (filter is_run_step (drop 3 (wrun stop_env3 20 0 (worker_start stop_env3)))) = 6 \<and>
   length (filter is_sleep (drop 3 (wrun stop_env3 20 0 (worker_start stop_env3)))) = 1"
proof -
  have a: "\<forall>t \<ge> 4. \<not> running_at stop_env t" by (simp add: stop_env_def)
  have b: "\<forall>t \<ge> 3. \<not> running_at stop_env3 t" by (simp add: stop_env3_def)
  have c: "\<not> running_at stop_env3 3" by (simp add: stop_env3_def)
  from worker_stops [OF a, of 20 "worker_start stop_env"]
    worker_stops [OF b, of 20 "worker_start stop_env3"] c show ?thesis
    by (simp add: stop_env_run stop_env3_run)
qed


end
